theory Spec2Isabelle
  imports Main "HOL-Library.Multiset"
begin


section \<open>Python values and failures\<close>

text \<open>
  The three core functions of \<^verbatim>\<open>app.py\<close> work on Python integers and lists of them.
  Matrix and vector entries, \<open>n\<close> and \<open>m\<close> are unbounded integers (\<open>int\<close>); a matrix is a
  list of rows. Loop indices come from \<^verbatim>\<open>range\<close>, so they are never negative and are
  modelled as \<open>nat\<close>. An index read or write out of range raises \<^verbatim>\<open>IndexError\<close>, and
  \<^verbatim>\<open>min\<close> of an empty sequence raises \<^verbatim>\<open>ValueError\<close>; both are values of the model.
\<close>

datatype py_error = IndexError | ValueError

text \<open>\<^verbatim>\<open>range(n)\<close>: empty when \<open>n \<le> 0\<close>.\<close>

definition py_range :: "int \<Rightarrow> nat list" where
  "py_range n = [0..<nat n]"

text \<open>\<^verbatim>\<open>xs[i]\<close> for an index \<open>i \<ge> 0\<close>.\<close>

definition py_get :: "'a list \<Rightarrow> nat \<Rightarrow> py_error + 'a" where
  "py_get xs i = (if i < length xs then Inr (xs ! i) else Inl IndexError)"

text \<open>\<^verbatim>\<open>xs[i] = v\<close> for an index \<open>i \<ge> 0\<close>.\<close>

definition py_set :: "'a list \<Rightarrow> nat \<Rightarrow> 'a \<Rightarrow> py_error + 'a list" where
  "py_set xs i v = (if i < length xs then Inr (xs[i := v]) else Inl IndexError)"

text \<open>\<^verbatim>\<open>mat[i][j]\<close>: the row is read first, then the cell.\<close>

definition py_get2 :: "'a list list \<Rightarrow> nat \<Rightarrow> nat \<Rightarrow> py_error + 'a" where
  "py_get2 mat i j = (case py_get mat i of Inl e \<Rightarrow> Inl e | Inr row \<Rightarrow> py_get row j)"

section \<open>validate_inputs\<close>

text \<open>
  The inner loop of the entry check, for one process \<open>i\<close>:
  \<^verbatim>\<open>for j in range(m): if allocation[i][j] < 0 or request[i][j] < 0: return False, ...\<close>.
  The result \<open>True\<close> stands for the early return; \<^verbatim>\<open>or\<close> does not read the request
  cell when the allocation cell is already negative.
\<close>

fun negative_in_row :: "int list list \<Rightarrow> int list list \<Rightarrow> nat \<Rightarrow> nat list \<Rightarrow> py_error + bool" where
  "negative_in_row allocation request i [] = Inr False"
| "negative_in_row allocation request i (j # js) =
     (case py_get2 allocation i j of
        Inl e \<Rightarrow> Inl e
      | Inr a \<Rightarrow>
          if a < 0 then Inr True
          else (case py_get2 request i j of
                  Inl e \<Rightarrow> Inl e
                | Inr r \<Rightarrow>
                    if r < 0 then Inr True
                    else negative_in_row allocation request i js))"

text \<open>The outer loop \<^verbatim>\<open>for i in range(n)\<close> around it.\<close>

fun negative_in_rows :: "int list list \<Rightarrow> int list list \<Rightarrow> nat list \<Rightarrow> nat list \<Rightarrow> py_error + bool" where
  "negative_in_rows allocation request [] js = Inr False"
| "negative_in_rows allocation request (i # is) js =
     (case negative_in_row allocation request i js of
        Inl e \<Rightarrow> Inl e
      | Inr found \<Rightarrow>
          if found then Inr True
          else negative_in_rows allocation request is js)"

text \<open>\<^verbatim>\<open>for val in available: if val < 0: return False, ...\<close>\<close>

fun negative_in_vector :: "int list \<Rightarrow> bool" where
  "negative_in_vector [] = False"
| "negative_in_vector (val # vals) = (if val < 0 then True else negative_in_vector vals)"

text \<open>
  \<^verbatim>\<open>len(mat) != n or any(len(row) != m for row in mat)\<close>, the shape test applied to
  both matrices.
\<close>

definition bad_shape :: "int \<Rightarrow> int \<Rightarrow> int list list \<Rightarrow> bool" where
  "bad_shape n m mat = (int (length mat) \<noteq> n \<or> list_ex (\<lambda>row. int (length row) \<noteq> m) mat)"

definition validate_inputs ::
  "int \<Rightarrow> int \<Rightarrow> int list list \<Rightarrow> int list list \<Rightarrow> int list \<Rightarrow> py_error + (bool \<times> string)" where
  "validate_inputs n m allocation request available =
     (if bad_shape n m allocation then Inr (False, ''Allocation matrix must be n x m.'')
      else if bad_shape n m request then Inr (False, ''Request matrix must be n x m.'')
      else if int (length available) \<noteq> m then Inr (False, ''Available vector must have m elements.'')
      else (case negative_in_rows allocation request (py_range n) (py_range m) of
              Inl e \<Rightarrow> Inl e
            | Inr found \<Rightarrow>
                if found then Inr (False, ''Values must be non-negative.'')
                else if negative_in_vector available
                then Inr (False, ''Available values must be non-negative.'')
                else Inr (True, '''')))"

section \<open>detect_deadlock\<close>

text \<open>
  \<^verbatim>\<open>all(request[i][j] <= work[j] for j in range(m))\<close>: the generator is consumed in
  order and \<^verbatim>\<open>all\<close> stops at the first false comparison.
\<close>

fun request_fits :: "int list list \<Rightarrow> int list \<Rightarrow> nat \<Rightarrow> nat list \<Rightarrow> py_error + bool" where
  "request_fits request work i [] = Inr True"
| "request_fits request work i (j # js) =
     (case py_get2 request i j of
        Inl e \<Rightarrow> Inl e
      | Inr r \<Rightarrow>
          (case py_get work j of
             Inl e \<Rightarrow> Inl e
           | Inr w \<Rightarrow>
               if r \<le> w then request_fits request work i js else Inr False))"

text \<open>\<^verbatim>\<open>[work[j] + allocation[i][j] for j in range(m)]\<close>, a new list.\<close>

fun released :: "int list \<Rightarrow> int list list \<Rightarrow> nat \<Rightarrow> nat list \<Rightarrow> py_error + int list" where
  "released work allocation i [] = Inr []"
| "released work allocation i (j # js) =
     (case py_get work j of
        Inl e \<Rightarrow> Inl e
      | Inr w \<Rightarrow>
          (case py_get2 allocation i j of
             Inl e \<Rightarrow> Inl e
           | Inr a \<Rightarrow>
               (case released work allocation i js of
                  Inl e \<Rightarrow> Inl e
                | Inr rest \<Rightarrow> Inr ((w + a) # rest))))"

text \<open>
  The variables of the \<^verbatim>\<open>while\<close> loop: \<open>work\<close>, \<open>finish\<close> and \<open>found\<close>.
\<close>

type_synonym detect_state = "int list \<times> bool list \<times> bool"

text \<open>
  The body of \<^verbatim>\<open>for i in range(n)\<close> for one process \<open>i\<close>. \<^verbatim>\<open>not finish[i] and ...\<close>
  does not evaluate the comparison for a process that is already finished.
\<close>

fun visit :: "int \<Rightarrow> int list list \<Rightarrow> int list list \<Rightarrow> nat \<Rightarrow> detect_state \<Rightarrow> py_error + detect_state" where
  "visit m allocation request i (work, finish, found) =
     (case py_get finish i of
        Inl e \<Rightarrow> Inl e
      | Inr fin \<Rightarrow>
          if fin then Inr (work, finish, found)
          else (case request_fits request work i (py_range m) of
                  Inl e \<Rightarrow> Inl e
                | Inr fits \<Rightarrow>
                    if \<not> fits then Inr (work, finish, found)
                    else (case released work allocation i (py_range m) of
                            Inl e \<Rightarrow> Inl e
                          | Inr work' \<Rightarrow>
                              (case py_set finish i True of
                                 Inl e \<Rightarrow> Inl e
                               | Inr finish' \<Rightarrow> Inr (work', finish', True)))))"

declare visit.simps [simp del]

text \<open>
  One pass of the \<^verbatim>\<open>for\<close> loop over the processes in the list \<open>order\<close>; the source
  visits \<^verbatim>\<open>range(n)\<close>.
\<close>

fun pass :: "int \<Rightarrow> int list list \<Rightarrow> int list list \<Rightarrow> nat list \<Rightarrow> detect_state \<Rightarrow> py_error + detect_state" where
  "pass m allocation request [] s = Inr s"
| "pass m allocation request (i # is) s =
     (case visit m allocation request i s of
        Inl e \<Rightarrow> Inl e
      | Inr s' \<Rightarrow> pass m allocation request is s')"

text \<open>The number of processes not yet marked finished.\<close>

definition unfinished_count :: "bool list \<Rightarrow> nat" where
  "unfinished_count finish = length (filter Not finish)"

text \<open>
  Marking a process finished lowers that number, which is why the \<^verbatim>\<open>while\<close> loop below
  is a total function.
\<close>

lemma unfinished_count_update:
  "i < length finish \<Longrightarrow> \<not> finish ! i \<Longrightarrow>
   unfinished_count (finish[i := True]) < unfinished_count finish"
  unfolding unfinished_count_def
proof (induction finish arbitrary: i)
  case Nil
  then show ?case by simp
next
  case (Cons b bs)
  then show ?case by (cases i) auto
qed

lemma visit_unfinished:
  assumes "visit m allocation request i (work, finish, found) = Inr (work', finish', found')"
  shows "unfinished_count finish' \<le> unfinished_count finish \<and>
         (found' \<longrightarrow> found \<or> unfinished_count finish' < unfinished_count finish)"
  using assms unfinished_count_update [of i finish]
  by (auto simp: visit.simps py_get_def py_set_def split: sum.splits if_splits)

lemma pass_unfinished:
  "pass m allocation request order (work, finish, found) = Inr (work', finish', found') \<Longrightarrow>
   unfinished_count finish' \<le> unfinished_count finish \<and>
   (found' \<longrightarrow> found \<or> unfinished_count finish' < unfinished_count finish)"
proof (induction order arbitrary: work finish found)
  case Nil
  then show ?case by simp
next
  case (Cons i order)
  from Cons.prems obtain w1 f1 fd1 where
    v: "visit m allocation request i (work, finish, found) = Inr (w1, f1, fd1)" and
    p: "pass m allocation request order (w1, f1, fd1) = Inr (work', finish', found')"
    by (auto split: sum.splits)
  from visit_unfinished [OF v] Cons.IH [OF p] show ?case by auto
qed

text \<open>
  The \<^verbatim>\<open>while True\<close> loop: \<open>found\<close> is reset, one pass runs, and the loop is left when the
  pass has marked no process. The result is the final \<open>work\<close> and \<open>finish\<close>.
\<close>

function fixed_point ::
  "int \<Rightarrow> int list list \<Rightarrow> int list list \<Rightarrow> nat list \<Rightarrow> int list \<times> bool list
   \<Rightarrow> py_error + (int list \<times> bool list)" where
  "fixed_point m allocation request order (work, finish) =
     (case pass m allocation request order (work, finish, False) of
        Inl e \<Rightarrow> Inl e
      | Inr (work', finish', found) \<Rightarrow>
          if found then fixed_point m allocation request order (work', finish')
          else Inr (work', finish'))"
  by pat_completeness auto
termination
proof (relation "measure (\<lambda>(m, allocation, request, order, work, finish). unfinished_count finish)")
  show "wf (measure (\<lambda>(m, allocation, request, order, work, finish). unfinished_count finish))"
    by simp
next
  fix m allocation request order work finish x2 x y xa ya
  assume "pass m allocation request order (work, finish, False) = Inr x2"
    and "(x, y) = x2" and "(xa, ya) = y" and "ya"
  then have "pass m allocation request order (work, finish, False) = Inr (x, xa, True)"
    by simp
  from pass_unfinished [OF this]
  show "((m, allocation, request, order, x, xa), (m, allocation, request, order, work, finish))
        \<in> measure (\<lambda>(m, allocation, request, order, work, finish). unfinished_count finish)"
    by simp
qed

declare fixed_point.simps [simp del]

text \<open>
  The same loop with a bound on the number of passes: \<open>None\<close> when the bound is used up
  before the loop is left.
\<close>

fun fixed_point_fuel ::
  "nat \<Rightarrow> int \<Rightarrow> int list list \<Rightarrow> int list list \<Rightarrow> nat list \<Rightarrow> int list \<times> bool list
   \<Rightarrow> (py_error + (int list \<times> bool list)) option" where
  "fixed_point_fuel 0 m allocation request order (work, finish) = None"
| "fixed_point_fuel (Suc k) m allocation request order (work, finish) =
     (case pass m allocation request order (work, finish, False) of
        Inl e \<Rightarrow> Some (Inl e)
      | Inr (work', finish', found) \<Rightarrow>
          if found then fixed_point_fuel k m allocation request order (work', finish')
          else Some (Inr (work', finish')))"

text \<open>\<^verbatim>\<open>[i for i in range(n) if not finish[i]]\<close>\<close>

fun unfinished :: "bool list \<Rightarrow> nat list \<Rightarrow> py_error + nat list" where
  "unfinished finish [] = Inr []"
| "unfinished finish (i # is) =
     (case py_get finish i of
        Inl e \<Rightarrow> Inl e
      | Inr fin \<Rightarrow>
          (case unfinished finish is of
             Inl e \<Rightarrow> Inl e
           | Inr rest \<Rightarrow> Inr (if fin then rest else i # rest)))"

text \<open>Decimal digits of a non-negative integer, as \<^verbatim>\<open>str\<close> prints them.\<close>

definition digit_char :: "nat \<Rightarrow> char" where
  "digit_char d = ''0123456789'' ! d"

fun py_str_nat :: "nat \<Rightarrow> string" where
  "py_str_nat k = (if k < 10 then [digit_char k] else py_str_nat (k div 10) @ [digit_char (k mod 10)])"

declare py_str_nat.simps [simp del]

text \<open>\<^verbatim>\<open>sep.join(parts)\<close>\<close>

fun py_join :: "string \<Rightarrow> string list \<Rightarrow> string" where
  "py_join sep [] = []"
| "py_join sep [x] = x"
| "py_join sep (x # y # ys) = x @ sep @ py_join sep (y # ys)"

text \<open>\<^verbatim>\<open>str\<close> of a list of integers, as the f-string \<^verbatim>\<open>{deadlocked}\<close> prints it: \<^verbatim>\<open>[0, 1, 2]\<close>.\<close>

definition py_str_list :: "nat list \<Rightarrow> string" where
  "py_str_list xs = ''['' @ py_join '', '' (map py_str_nat xs) @ '']''"

text \<open>
  The function of the source: \<open>work\<close> starts as a copy of \<open>available\<close>, \<open>finish\<close> as
  \<^verbatim>\<open>[False] * n\<close>, and the passes visit \<^verbatim>\<open>range(n)\<close>.
\<close>

definition detect_deadlock ::
  "int \<Rightarrow> int \<Rightarrow> int list list \<Rightarrow> int list list \<Rightarrow> int list
   \<Rightarrow> py_error + (bool \<times> nat list \<times> string)" where
  "detect_deadlock n m allocation request available =
     (case fixed_point m allocation request (py_range n) (available, replicate (nat n) False) of
        Inl e \<Rightarrow> Inl e
      | Inr (work, finish) \<Rightarrow>
          (case unfinished finish (py_range n) of
             Inl e \<Rightarrow> Inl e
           | Inr deadlocked \<Rightarrow>
               if deadlocked \<noteq> []
               then Inr (True, deadlocked,
                         ''Deadlock detected in processes: '' @ py_str_list deadlocked @ ''.'')
               else Inr (False, [], ''No deadlock detected.'')))"

text \<open>
  The same function with the passes visiting the processes in a given \<open>order\<close> instead of
  \<^verbatim>\<open>range(n)\<close>; \<open>detect_deadlock\<close> is its instance at \<open>py_range n\<close>.
\<close>

definition detect_deadlock_in_order ::
  "nat list \<Rightarrow> int \<Rightarrow> int \<Rightarrow> int list list \<Rightarrow> int list list \<Rightarrow> int list
   \<Rightarrow> py_error + (bool \<times> nat list \<times> string)" where
  "detect_deadlock_in_order order n m allocation request available =
     (case fixed_point m allocation request order (available, replicate (nat n) False) of
        Inl e \<Rightarrow> Inl e
      | Inr (work, finish) \<Rightarrow>
          (case unfinished finish (py_range n) of
             Inl e \<Rightarrow> Inl e
           | Inr deadlocked \<Rightarrow>
               if deadlocked \<noteq> []
               then Inr (True, deadlocked,
                         ''Deadlock detected in processes: '' @ py_str_list deadlocked @ ''.'')
               else Inr (False, [], ''No deadlock detected.'')))"

text \<open>
  The successive values of the loop variables, one after each visited process, in the
  order the execution produces them.
\<close>

fun pass_states ::
  "int \<Rightarrow> int list list \<Rightarrow> int list list \<Rightarrow> nat list \<Rightarrow> detect_state \<Rightarrow> detect_state list" where
  "pass_states m allocation request [] s = []"
| "pass_states m allocation request (i # is) s =
     (case visit m allocation request i s of
        Inl e \<Rightarrow> []
      | Inr s' \<Rightarrow> s' # pass_states m allocation request is s')"

function fixed_point_states ::
  "int \<Rightarrow> int list list \<Rightarrow> int list list \<Rightarrow> nat list \<Rightarrow> int list \<times> bool list
   \<Rightarrow> detect_state list" where
  "fixed_point_states m allocation request order (work, finish) =
     pass_states m allocation request order (work, finish, False) @
     (case pass m allocation request order (work, finish, False) of
        Inl e \<Rightarrow> []
      | Inr (work', finish', found) \<Rightarrow>
          if found then fixed_point_states m allocation request order (work', finish')
          else [])"
  by pat_completeness auto
termination
proof (relation "measure (\<lambda>(m, allocation, request, order, work, finish). unfinished_count finish)")
  show "wf (measure (\<lambda>(m, allocation, request, order, work, finish). unfinished_count finish))"
    by simp
next
  fix m allocation request order work finish x2 x y xa ya
  assume "pass m allocation request order (work, finish, False) = Inr x2"
    and "(x, y) = x2" and "(xa, ya) = y" and "ya"
  then have "pass m allocation request order (work, finish, False) = Inr (x, xa, True)"
    by simp
  from pass_unfinished [OF this]
  show "((m, allocation, request, order, x, xa), (m, allocation, request, order, work, finish))
        \<in> measure (\<lambda>(m, allocation, request, order, work, finish). unfinished_count finish)"
    by simp
qed

declare fixed_point_states.simps [simp del]

text \<open>
  Every value the variable \<open>work\<close> holds during a call of \<open>detect_deadlock\<close>, from its
  initialisation on.
\<close>

definition work_history ::
  "int \<Rightarrow> int \<Rightarrow> int list list \<Rightarrow> int list list \<Rightarrow> int list \<Rightarrow> int list list" where
  "work_history n m allocation request available =
     available #
     map fst (fixed_point_states m allocation request (py_range n)
                (available, replicate (nat n) False))"

section \<open>suggest_resolution\<close>

text \<open>
  \<^verbatim>\<open>min(xs, key=f)\<close>: \<^verbatim>\<open>ValueError\<close> on an empty list; otherwise the elements are
  visited in order and a later one replaces the candidate only when its key is strictly
  smaller. A failure of the key function propagates.
\<close>

fun min_from :: "('a \<Rightarrow> py_error + int) \<Rightarrow> 'a \<Rightarrow> int \<Rightarrow> 'a list \<Rightarrow> py_error + 'a" where
  "min_from key best best_key [] = Inr best"
| "min_from key best best_key (x # xs) =
     (case key x of
        Inl e \<Rightarrow> Inl e
      | Inr k \<Rightarrow>
          if k < best_key then min_from key x k xs
          else min_from key best best_key xs)"

fun py_min_key :: "('a \<Rightarrow> py_error + int) \<Rightarrow> 'a list \<Rightarrow> py_error + 'a" where
  "py_min_key key [] = Inl ValueError"
| "py_min_key key (x # xs) =
     (case key x of
        Inl e \<Rightarrow> Inl e
      | Inr k \<Rightarrow> min_from key x k xs)"

text \<open>The key \<^verbatim>\<open>lambda i: sum(allocation[i])\<close>.\<close>

definition held :: "int list list \<Rightarrow> nat \<Rightarrow> py_error + int" where
  "held allocation i = (case py_get allocation i of Inl e \<Rightarrow> Inl e | Inr row \<Rightarrow> Inr (sum_list row))"

definition strategies :: "string list" where
  "strategies =
     [''Strategy 1: Terminate one or more deadlocked processes to break the circular wait.'',
      ''Strategy 2: Preempt resources from a process and rollback.'']"

definition recommendation :: "nat \<Rightarrow> string" where
  "recommendation victim_candidate =
     ''Recommendation: Terminate Process P'' @ py_str_nat victim_candidate @
     '' (holds fewest resources).''"

text \<open>
  The list \<open>deadlocked\<close> holds process indices, which are not negative. Only
  \<^verbatim>\<open>ValueError\<close> is caught by the \<^verbatim>\<open>try\<close>; an \<^verbatim>\<open>IndexError\<close> from \<^verbatim>\<open>allocation[i]\<close>
  leaves the function. The argument \<open>request\<close> is not used.
\<close>

definition suggest_resolution ::
  "nat list \<Rightarrow> int list list \<Rightarrow> int list list \<Rightarrow> py_error + string" where
  "suggest_resolution deadlocked allocation request =
     (if deadlocked = [] then Inr ''No action required.''
      else (case py_min_key (held allocation) deadlocked of
              Inl e \<Rightarrow>
                (case e of
                   ValueError \<Rightarrow> Inr (py_join ''<br>'' strategies)
                 | IndexError \<Rightarrow> Inl IndexError)
            | Inr victim_candidate \<Rightarrow>
                Inr (py_join ''<br>'' (strategies @ [recommendation victim_candidate]))))"

section \<open>detect_deadlock on a store of objects\<close>

text \<open>
  Python lists are mutable objects and the arguments of \<open>detect_deadlock\<close> are references
  to the caller's lists. To state what a call does to them, the function is modelled
  once more on an explicit store: a list of objects, an address being a position in it.
  A matrix is an object holding the addresses of its rows. Creating a list
  (\<^verbatim>\<open>available.copy()\<close>, \<^verbatim>\<open>[False] * n\<close>, a list comprehension) appends a new object;
  \<^verbatim>\<open>finish[i] = True\<close> overwrites the object \<open>finish\<close> refers to. \<open>IllTyped\<close> is the
  outcome when an address does not hold the kind of list the function expects there.
  Every function returns the store it leaves behind, also when it raises.
\<close>

type_synonym addr = nat

datatype py_object = IntList "int list" | BoolList "bool list" | RowList "addr list"

type_synonym store = "py_object list"

datatype st_error = Raised py_error | IllTyped

definition st_alloc :: "store \<Rightarrow> py_object \<Rightarrow> addr \<times> store" where
  "st_alloc st obj = (length st, st @ [obj])"

definition st_ints :: "store \<Rightarrow> addr \<Rightarrow> st_error + int list" where
  "st_ints st a =
     (if a < length st
      then (case st ! a of IntList xs \<Rightarrow> Inr xs | BoolList bs \<Rightarrow> Inl IllTyped | RowList rs \<Rightarrow> Inl IllTyped)
      else Inl IllTyped)"

definition st_bools :: "store \<Rightarrow> addr \<Rightarrow> st_error + bool list" where
  "st_bools st a =
     (if a < length st
      then (case st ! a of IntList xs \<Rightarrow> Inl IllTyped | BoolList bs \<Rightarrow> Inr bs | RowList rs \<Rightarrow> Inl IllTyped)
      else Inl IllTyped)"

definition st_rows :: "store \<Rightarrow> addr \<Rightarrow> st_error + addr list" where
  "st_rows st a =
     (if a < length st
      then (case st ! a of IntList xs \<Rightarrow> Inl IllTyped | BoolList bs \<Rightarrow> Inl IllTyped | RowList rs \<Rightarrow> Inr rs)
      else Inl IllTyped)"

text \<open>\<^verbatim>\<open>xs[j]\<close>, \<^verbatim>\<open>finish[i]\<close>, \<^verbatim>\<open>mat[i][j]\<close> and \<^verbatim>\<open>finish[i] = v\<close> through references.\<close>

definition st_get :: "store \<Rightarrow> addr \<Rightarrow> nat \<Rightarrow> st_error + int" where
  "st_get st a j =
     (case st_ints st a of
        Inl e \<Rightarrow> Inl e
      | Inr xs \<Rightarrow> if j < length xs then Inr (xs ! j) else Inl (Raised IndexError))"

definition st_get_bool :: "store \<Rightarrow> addr \<Rightarrow> nat \<Rightarrow> st_error + bool" where
  "st_get_bool st a i =
     (case st_bools st a of
        Inl e \<Rightarrow> Inl e
      | Inr bs \<Rightarrow> if i < length bs then Inr (bs ! i) else Inl (Raised IndexError))"

definition st_get2 :: "store \<Rightarrow> addr \<Rightarrow> nat \<Rightarrow> nat \<Rightarrow> st_error + int" where
  "st_get2 st mat i j =
     (case st_rows st mat of
        Inl e \<Rightarrow> Inl e
      | Inr rows \<Rightarrow> if i < length rows then st_get st (rows ! i) j else Inl (Raised IndexError))"

definition st_set_bool :: "store \<Rightarrow> addr \<Rightarrow> nat \<Rightarrow> bool \<Rightarrow> st_error + store" where
  "st_set_bool st a i v =
     (case st_bools st a of
        Inl e \<Rightarrow> Inl e
      | Inr bs \<Rightarrow>
          if i < length bs then Inr (st[a := BoolList (bs[i := v])])
          else Inl (Raised IndexError))"

text \<open>The functions of the section on \<open>detect_deadlock\<close>, reading through references.\<close>

fun st_request_fits :: "store \<Rightarrow> addr \<Rightarrow> addr \<Rightarrow> nat \<Rightarrow> nat list \<Rightarrow> st_error + bool" where
  "st_request_fits st request work i [] = Inr True"
| "st_request_fits st request work i (j # js) =
     (case st_get2 st request i j of
        Inl e \<Rightarrow> Inl e
      | Inr r \<Rightarrow>
          (case st_get st work j of
             Inl e \<Rightarrow> Inl e
           | Inr w \<Rightarrow>
               if r \<le> w then st_request_fits st request work i js else Inr False))"

fun st_released :: "store \<Rightarrow> addr \<Rightarrow> addr \<Rightarrow> nat \<Rightarrow> nat list \<Rightarrow> st_error + int list" where
  "st_released st work allocation i [] = Inr []"
| "st_released st work allocation i (j # js) =
     (case st_get st work j of
        Inl e \<Rightarrow> Inl e
      | Inr w \<Rightarrow>
          (case st_get2 st allocation i j of
             Inl e \<Rightarrow> Inl e
           | Inr a \<Rightarrow>
               (case st_released st work allocation i js of
                  Inl e \<Rightarrow> Inl e
                | Inr rest \<Rightarrow> Inr ((w + a) # rest))))"

text \<open>
  The loop variables \<open>work\<close> and \<open>finish\<close> now hold references. Assigning the list
  comprehension to \<open>work\<close> makes it refer to a new object; the object it referred to
  before is left as it is.
\<close>

type_synonym st_detect_state = "addr \<times> addr \<times> bool"

fun st_visit ::
  "int \<Rightarrow> addr \<Rightarrow> addr \<Rightarrow> nat \<Rightarrow> st_detect_state \<Rightarrow> store \<Rightarrow> (st_error + st_detect_state) \<times> store" where
  "st_visit m allocation request i (work, finish, found) st =
     (case st_get_bool st finish i of
        Inl e \<Rightarrow> (Inl e, st)
      | Inr fin \<Rightarrow>
          if fin then (Inr (work, finish, found), st)
          else (case st_request_fits st request work i (py_range m) of
                  Inl e \<Rightarrow> (Inl e, st)
                | Inr fits \<Rightarrow>
                    if \<not> fits then (Inr (work, finish, found), st)
                    else (case st_released st work allocation i (py_range m) of
                            Inl e \<Rightarrow> (Inl e, st)
                          | Inr new_work \<Rightarrow>
                              (case st_alloc st (IntList new_work) of
                                 (work', st1) \<Rightarrow>
                                   (case st_set_bool st1 finish i True of
                                      Inl e \<Rightarrow> (Inl e, st1)
                                    | Inr st2 \<Rightarrow> (Inr (work', finish, True), st2))))))"

declare st_visit.simps [simp del]

fun st_pass ::
  "int \<Rightarrow> addr \<Rightarrow> addr \<Rightarrow> nat list \<Rightarrow> st_detect_state \<Rightarrow> store \<Rightarrow> (st_error + st_detect_state) \<times> store" where
  "st_pass m allocation request [] s st = (Inr s, st)"
| "st_pass m allocation request (i # is) s st =
     (case st_visit m allocation request i s st of
        (Inl e, st') \<Rightarrow> (Inl e, st')
      | (Inr s', st') \<Rightarrow> st_pass m allocation request is s' st')"

text \<open>
  The number of unfinished processes in the object \<open>finish\<close> refers to, and the frame of
  a step: the store only grows, and no object other than that one changes.
\<close>

definition st_unfinished_count :: "store \<Rightarrow> addr \<Rightarrow> nat" where
  "st_unfinished_count st finish =
     (case st_bools st finish of Inl e \<Rightarrow> 0 | Inr bs \<Rightarrow> unfinished_count bs)"

definition st_frame :: "addr \<Rightarrow> store \<Rightarrow> store \<Rightarrow> bool" where
  "st_frame finish st st' \<longleftrightarrow>
     length st \<le> length st' \<and> (\<forall>a < length st. a \<noteq> finish \<longrightarrow> st' ! a = st ! a)"

lemma st_frame_refl [simp]: "st_frame finish st st"
  by (simp add: st_frame_def)

lemma st_frame_trans: "st_frame finish st st' \<Longrightarrow> st_frame finish st' st'' \<Longrightarrow> st_frame finish st st''"
  by (auto simp: st_frame_def)

lemma st_visit_effect:
  assumes "st_visit m allocation request i (work, finish, found) st = (Inr (work', finish', found'), st')"
  shows "finish' = finish \<and> st_frame finish st st' \<and>
         st_unfinished_count st' finish \<le> st_unfinished_count st finish \<and>
         (found' \<longrightarrow> found \<or> st_unfinished_count st' finish < st_unfinished_count st finish)"
  using assms unfinished_count_update [of i] less_imp_le [OF unfinished_count_update [of i]]
  by (auto simp: st_visit.simps st_get_bool_def st_set_bool_def st_alloc_def st_bools_def
      st_unfinished_count_def st_frame_def nth_append
      split: sum.splits if_splits py_object.splits)

lemma st_pass_effect:
  "st_pass m allocation request order (work, finish, found) st = (Inr (work', finish', found'), st') \<Longrightarrow>
   finish' = finish \<and> st_frame finish st st' \<and>
   st_unfinished_count st' finish \<le> st_unfinished_count st finish \<and>
   (found' \<longrightarrow> found \<or> st_unfinished_count st' finish < st_unfinished_count st finish)"
proof (induction order arbitrary: work found st)
  case Nil
  then show ?case by simp
next
  case (Cons i order)
  from Cons.prems obtain w1 f1 fd1 st1 where
    v: "st_visit m allocation request i (work, finish, found) st = (Inr (w1, f1, fd1), st1)" and
    p: "st_pass m allocation request order (w1, f1, fd1) st1 = (Inr (work', finish', found'), st')"
    by (auto split: prod.splits sum.splits)
  from st_visit_effect [OF v] have f1: "f1 = finish" and
    e1: "st_frame finish st st1"
      "st_unfinished_count st1 finish \<le> st_unfinished_count st finish"
      "fd1 \<longrightarrow> found \<or> st_unfinished_count st1 finish < st_unfinished_count st finish"
    by simp_all
  from Cons.IH [OF p [unfolded f1]] have
    e2: "finish' = finish" "st_frame finish st1 st'"
      "st_unfinished_count st' finish \<le> st_unfinished_count st1 finish"
      "found' \<longrightarrow> fd1 \<or> st_unfinished_count st' finish < st_unfinished_count st1 finish"
    by simp_all
  from e1 e2 st_frame_trans [OF e1(1) e2(2)] show ?case by auto
qed

function st_fixed_point ::
  "int \<Rightarrow> addr \<Rightarrow> addr \<Rightarrow> nat list \<Rightarrow> addr \<times> addr \<Rightarrow> store
   \<Rightarrow> (st_error + (addr \<times> addr)) \<times> store" where
  "st_fixed_point m allocation request order (work, finish) st =
     (case st_pass m allocation request order (work, finish, False) st of
        (Inl e, st') \<Rightarrow> (Inl e, st')
      | (Inr (work', finish', found), st') \<Rightarrow>
          if found then st_fixed_point m allocation request order (work', finish') st'
          else (Inr (work', finish'), st'))"
  by pat_completeness auto
termination
proof (relation "measure (\<lambda>(m, allocation, request, order, (work, finish), st).
                           st_unfinished_count st finish)")
  show "wf (measure (\<lambda>(m, allocation, request, order, (work, finish), st).
                           st_unfinished_count st finish))"
    by simp
next
  fix m allocation request order work finish st x1 st' x2 work' y finish' found
  assume "(x1, st') = st_pass m allocation request order (work, finish, False) st"
    and "x1 = Inr x2" and "(work', y) = x2" and "(finish', found) = y" and found
  then have "st_pass m allocation request order (work, finish, False) st =
             (Inr (work', finish', True), st')"
    by simp
  from st_pass_effect [OF this]
  show "((m, allocation, request, order, (work', finish'), st'),
         (m, allocation, request, order, (work, finish), st))
        \<in> measure (\<lambda>(m, allocation, request, order, (work, finish), st).
                           st_unfinished_count st finish)"
    by simp
qed

declare st_fixed_point.simps [simp del]

fun st_unfinished :: "store \<Rightarrow> addr \<Rightarrow> nat list \<Rightarrow> st_error + nat list" where
  "st_unfinished st finish [] = Inr []"
| "st_unfinished st finish (i # is) =
     (case st_get_bool st finish i of
        Inl e \<Rightarrow> Inl e
      | Inr fin \<Rightarrow>
          (case st_unfinished st finish is of
             Inl e \<Rightarrow> Inl e
           | Inr rest \<Rightarrow> Inr (if fin then rest else i # rest)))"

text \<open>
  The function of the source: \<open>work\<close> refers to a new copy of the object \<open>available\<close>
  refers to, \<open>finish\<close> to a new list of \<open>n\<close> flags.
\<close>

definition st_detect_deadlock ::
  "int \<Rightarrow> int \<Rightarrow> addr \<Rightarrow> addr \<Rightarrow> addr \<Rightarrow> store
   \<Rightarrow> (st_error + (bool \<times> nat list \<times> string)) \<times> store" where
  "st_detect_deadlock n m allocation request available st =
     (case st_ints st available of
        Inl e \<Rightarrow> (Inl e, st)
      | Inr copy \<Rightarrow>
          (case st_alloc st (IntList copy) of
             (work, st1) \<Rightarrow>
               (case st_alloc st1 (BoolList (replicate (nat n) False)) of
                  (finish, st2) \<Rightarrow>
                    (case st_fixed_point m allocation request (py_range n) (work, finish) st2 of
                       (Inl e, st3) \<Rightarrow> (Inl e, st3)
                     | (Inr (work', finish'), st3) \<Rightarrow>
                         (case st_unfinished st3 finish' (py_range n) of
                            Inl e \<Rightarrow> (Inl e, st3)
                          | Inr deadlocked \<Rightarrow>
                              if deadlocked \<noteq> []
                              then (Inr (True, deadlocked,
                                         ''Deadlock detected in processes: '' @
                                         py_str_list deadlocked @ ''.''), st3)
                              else (Inr (False, [], ''No deadlock detected.''), st3))))))"

section \<open>Notions used in the statements and proofs\<close>

text \<open>
  A valid state is one that \<open>validate_inputs\<close> accepts; \<open>detect_deadlock\<close> is only called
  on such states.
\<close>

definition valid_state :: "int \<Rightarrow> int \<Rightarrow> int list list \<Rightarrow> int list list \<Rightarrow> int list \<Rightarrow> bool" where
  "valid_state n m allocation request available \<longleftrightarrow>
     validate_inputs n m allocation request available = Inr (True, '''')"

text \<open>
  The processes marked finished, as a set; the value \<open>work\<close> has once exactly the
  processes in \<open>F\<close> are marked (the available vector plus their allocation rows); the
  test \<open>request[i][j] <= work[j]\<close> for all \<open>j\<close>; and the invariant of the loop, which ties
  \<open>work\<close> to \<open>finish\<close>.
\<close>

definition finished_set :: "bool list \<Rightarrow> nat set" where
  "finished_set finish = {i. i < length finish \<and> finish ! i}"

definition work_of :: "int list list \<Rightarrow> int list \<Rightarrow> nat set \<Rightarrow> int list" where
  "work_of allocation available F =
     map (\<lambda>j. available ! j + (\<Sum>i \<in> F. allocation ! i ! j)) [0..<length available]"

definition can_finish :: "int \<Rightarrow> int list list \<Rightarrow> int list \<Rightarrow> nat \<Rightarrow> bool" where
  "can_finish m request work i \<longleftrightarrow> (\<forall>j < nat m. request ! i ! j \<le> work ! j)"

definition detect_inv :: "int \<Rightarrow> int list list \<Rightarrow> int list \<Rightarrow> int list \<Rightarrow> bool list \<Rightarrow> bool" where
  "detect_inv n allocation available work finish \<longleftrightarrow>
     length finish = nat n \<and> work = work_of allocation available (finished_set finish)"

text \<open>
  One step of the variable \<open>work\<close>: it keeps its value, or the allocation row of some
  process is added to it element by element; either way no element gets smaller.
\<close>

definition work_step :: "int \<Rightarrow> int \<Rightarrow> int list list \<Rightarrow> int list \<Rightarrow> int list \<Rightarrow> bool" where
  "work_step n m allocation u v \<longleftrightarrow>
     list_all2 (\<le>) u v \<and>
     (v = u \<or> (\<exists>i < nat n. v = map (\<lambda>j. u ! j + allocation ! i ! j) [0..<nat m]))"

text \<open>
  \<open>holds_matrix st a mat\<close>: the object at \<open>a\<close> is a matrix whose rows are the lists \<open>mat\<close>.
  \<open>raised\<close> embeds the outcomes of the functions on values. \<open>st_keeps st st'\<close>: the store
  has grown and at most lists of flags have changed.
\<close>

definition holds_matrix :: "store \<Rightarrow> addr \<Rightarrow> int list list \<Rightarrow> bool" where
  "holds_matrix st a mat \<longleftrightarrow>
     (case st_rows st a of
        Inl e \<Rightarrow> False
      | Inr rows \<Rightarrow> list_all2 (\<lambda>r row. st_ints st r = Inr row) rows mat)"

definition raised :: "py_error + 'a \<Rightarrow> st_error + 'a" where
  "raised r = (case r of Inl e \<Rightarrow> Inl (Raised e) | Inr x \<Rightarrow> Inr x)"

definition st_keeps :: "store \<Rightarrow> store \<Rightarrow> bool" where
  "st_keeps st st' \<longleftrightarrow>
     length st \<le> length st' \<and>
     (\<forall>a < length st. (\<forall>bs. st ! a \<noteq> BoolList bs) \<longrightarrow> st' ! a = st ! a)"

section \<open>Properties of validate_inputs\<close>

lemma py_get_in_range [simp]: "i < length xs \<Longrightarrow> py_get xs i = Inr (xs ! i)"
  by (simp add: py_get_def)

lemma py_get2_in_range [simp]:
  "i < length mat \<Longrightarrow> j < length (mat ! i) \<Longrightarrow> py_get2 mat i j = Inr (mat ! i ! j)"
  by (simp add: py_get2_def)

lemma py_set_in_range [simp]: "i < length xs \<Longrightarrow> py_set xs i v = Inr (xs[i := v])"
  by (simp add: py_set_def)

lemma set_py_range [simp]: "set (py_range n) = {i. int i < n}"
  by (auto simp: py_range_def)

text \<open>A matrix with \<open>n\<close> rows of \<open>m\<close> columns, in terms of list lengths.\<close>

lemma bad_shape_iff:
  "bad_shape n m mat \<longleftrightarrow> \<not> (int (length mat) = n \<and> (\<forall>row \<in> set mat. int (length row) = m))"
  by (auto simp: bad_shape_def list_ex_iff)

lemma good_shape_nth:
  "\<not> bad_shape n m mat \<Longrightarrow> int i < n \<Longrightarrow> i < length mat \<and> int (length (mat ! i)) = m"
  by (auto simp: bad_shape_iff)

lemma good_shape_cell:
  "\<not> bad_shape n m mat \<Longrightarrow> int i < n \<Longrightarrow> int j < m \<Longrightarrow> i < length mat \<and> j < length (mat ! i)"
  using good_shape_nth [of n m mat i] by auto

lemma negative_in_row_good:
  assumes "i < length allocation" "i < length request"
    and "\<forall>j \<in> set js. j < length (allocation ! i) \<and> j < length (request ! i)"
  shows "negative_in_row allocation request i js =
         Inr (\<exists>j \<in> set js. allocation ! i ! j < 0 \<or> request ! i ! j < 0)"
  using assms by (induction js) auto

lemma negative_in_rows_good:
  assumes "\<forall>i \<in> set is. i < length allocation \<and> i < length request \<and>
             (\<forall>j \<in> set js. j < length (allocation ! i) \<and> j < length (request ! i))"
  shows "negative_in_rows allocation request is js =
         Inr (\<exists>i \<in> set is. \<exists>j \<in> set js. allocation ! i ! j < 0 \<or> request ! i ! j < 0)"
  using assms
proof (induction "is")
  case Nil
  then show ?case by simp
next
  case (Cons i "is")
  then have "negative_in_row allocation request i js =
         Inr (\<exists>j \<in> set js. allocation ! i ! j < 0 \<or> request ! i ! j < 0)"
    by (intro negative_in_row_good) auto
  with Cons show ?case by auto
qed

lemma negative_in_vector_iff: "negative_in_vector v \<longleftrightarrow> (\<exists>x \<in> set v. x < 0)"
  by (induction v) auto

lemma matrix_negative_iff:
  assumes "\<not> bad_shape n m mat"
  shows "(\<exists>row \<in> set mat. \<exists>x \<in> set row. x < (0::int)) \<longleftrightarrow>
         (\<exists>i. int i < n \<and> (\<exists>j. int j < m \<and> mat ! i ! j < 0))"
proof
  assume "\<exists>row \<in> set mat. \<exists>x \<in> set row. x < 0"
  then obtain i j where "i < length mat" "j < length (mat ! i)" "mat ! i ! j < 0"
    by (auto simp: in_set_conv_nth)
  moreover from this assms have "int i < n" "int j < m"
    by (auto simp: bad_shape_iff)
  ultimately show "\<exists>i. int i < n \<and> (\<exists>j. int j < m \<and> mat ! i ! j < 0)"
    by blast
next
  assume "\<exists>i. int i < n \<and> (\<exists>j. int j < m \<and> mat ! i ! j < 0)"
  then obtain i j where ij: "int i < n" "int j < m" "mat ! i ! j < 0" by blast
  from good_shape_cell [OF assms ij(1) ij(2)] have "i < length mat" "j < length (mat ! i)"
    by auto
  then have "mat ! i \<in> set mat" "mat ! i ! j \<in> set (mat ! i)" by auto
  with ij(3) show "\<exists>row \<in> set mat. \<exists>x \<in> set row. x < 0" by blast
qed

lemma validate_inputs_good_shape:
  assumes a: "\<not> bad_shape n m allocation" and r: "\<not> bad_shape n m request"
    and v: "int (length available) = m"
  shows "validate_inputs n m allocation request available =
         (if (\<exists>row \<in> set allocation. \<exists>x \<in> set row. x < 0) \<or>
             (\<exists>row \<in> set request. \<exists>x \<in> set row. x < 0)
          then Inr (False, ''Values must be non-negative.'')
          else if \<exists>x \<in> set available. x < 0
          then Inr (False, ''Available values must be non-negative.'')
          else Inr (True, ''''))"
proof -
  have "negative_in_rows allocation request (py_range n) (py_range m) =
        Inr (\<exists>i \<in> set (py_range n). \<exists>j \<in> set (py_range m).
               allocation ! i ! j < 0 \<or> request ! i ! j < 0)"
    using good_shape_cell [OF a] good_shape_cell [OF r]
      good_shape_nth [OF a] good_shape_nth [OF r]
    by (intro negative_in_rows_good) auto
  also have "(\<exists>i \<in> set (py_range n). \<exists>j \<in> set (py_range m).
               allocation ! i ! j < 0 \<or> request ! i ! j < 0) \<longleftrightarrow>
             (\<exists>row \<in> set allocation. \<exists>x \<in> set row. x < 0) \<or>
             (\<exists>row \<in> set request. \<exists>x \<in> set row. x < 0)"
    unfolding matrix_negative_iff [OF a] matrix_negative_iff [OF r] by auto
  finally show ?thesis
    using a r v by (simp add: validate_inputs_def negative_in_vector_iff)
qed

text \<open>
  Claim C4. Whatever \<open>n\<close> and \<open>m\<close> are, an input whose allocation matrix is not \<open>n\<close> rows
  of \<open>m\<close> columns is rejected with the allocation message; otherwise one whose request
  matrix is not \<open>n\<close> by \<open>m\<close> is rejected with the request message; otherwise one whose
  available vector has not \<open>m\<close> elements is rejected with the available message. The
  checks run in that order and the first failure decides, every reason is a non-empty
  string, and \<open>n = 2\<close> with three allocation rows gives the allocation message.
\<close>

theorem validate_inputs_rejects_malformed_shape:
  fixes n m :: int and allocation request :: "int list list" and available :: "int list"
  defines "n_by_m \<equiv> \<lambda>mat. int (length mat) = n \<and> (\<forall>row \<in> set mat. int (length row) = m)"
  shows "(\<not> n_by_m allocation \<or> \<not> n_by_m request \<or> int (length available) \<noteq> m \<longrightarrow>
            (\<exists>reason. validate_inputs n m allocation request available = Inr (False, reason) \<and>
                      reason \<noteq> [])) \<and>
         (\<not> n_by_m allocation \<longrightarrow>
            validate_inputs n m allocation request available =
            Inr (False, ''Allocation matrix must be n x m.'')) \<and>
         (n_by_m allocation \<and> \<not> n_by_m request \<longrightarrow>
            validate_inputs n m allocation request available =
            Inr (False, ''Request matrix must be n x m.'')) \<and>
         (n_by_m allocation \<and> n_by_m request \<and> int (length available) \<noteq> m \<longrightarrow>
            validate_inputs n m allocation request available =
            Inr (False, ''Available vector must have m elements.'')) \<and>
         (n = 2 \<and> length allocation = 3 \<longrightarrow>
            validate_inputs n m allocation request available =
            Inr (False, ''Allocation matrix must be n x m.''))"
  unfolding n_by_m_def by (auto simp: validate_inputs_def bad_shape_iff)

theorem validate_inputs_rejects_malformed_shape_witness:
  "length [[1, 0], [0, 1], [0, 0 :: int]] = 3 \<and>
   validate_inputs 2 2 [[1, 0], [0, 1], [0, 0]] [[0, 1], [1, 0]] [0, 0] =
     Inr (False, ''Allocation matrix must be n x m.'') \<and>
   validate_inputs 2 2 [[1, 0], [0, 1]] [[0, 1], [1]] [0, 0] =
     Inr (False, ''Request matrix must be n x m.'') \<and>
   validate_inputs 2 2 [[1, 0], [0, 1]] [[0, 1], [1, 0]] [0] =
     Inr (False, ''Available vector must have m elements.'')"
  using validate_inputs_rejects_malformed_shape [of "[[1, 0], [0, 1], [0, 0]]" 2 2 "[[0, 1], [1, 0]]" "[0, 0]"]
    validate_inputs_rejects_malformed_shape [of "[[1, 0], [0, 1]]" 2 2 "[[0, 1], [1]]" "[0, 0]"]
    validate_inputs_rejects_malformed_shape [of "[[1, 0], [0, 1]]" 2 2 "[[0, 1], [1, 0]]" "[0]"]
  by simp

lemma validate_inputs_bad_shape:
  "bad_shape n m allocation \<or> bad_shape n m request \<or> int (length available) \<noteq> m \<Longrightarrow>
   validate_inputs n m allocation request available =
     Inr (False,
          if bad_shape n m allocation then ''Allocation matrix must be n x m.''
          else if bad_shape n m request then ''Request matrix must be n x m.''
          else ''Available vector must have m elements.'')"
  by (auto simp: validate_inputs_def)

lemma valid_state_iff:
  "valid_state n m allocation request available \<longleftrightarrow>
     \<not> bad_shape n m allocation \<and> \<not> bad_shape n m request \<and> int (length available) = m \<and>
     (\<forall>row \<in> set allocation. \<forall>x \<in> set row. 0 \<le> x) \<and>
     (\<forall>row \<in> set request. \<forall>x \<in> set row. 0 \<le> x) \<and>
     (\<forall>x \<in> set available. 0 \<le> x)"
proof (cases "bad_shape n m allocation \<or> bad_shape n m request \<or> int (length available) \<noteq> m")
  case True
  from validate_inputs_bad_shape [OF this] True show ?thesis
    by (auto simp: valid_state_def)
next
  case False
  then have "\<not> bad_shape n m allocation" "\<not> bad_shape n m request" "int (length available) = m"
    by auto
  note eq = validate_inputs_good_shape [OF this]
  have "(\<not> (\<exists>row \<in> set mat. \<exists>x \<in> set row. x < 0)) = (\<forall>row \<in> set mat. \<forall>x \<in> set row. 0 \<le> x)"
    for mat :: "int list list"
    by (auto simp: not_less)
  moreover have "(\<not> (\<exists>x \<in> set available. x < 0)) = (\<forall>x \<in> set available. 0 \<le> x)"
    by (auto simp: not_less)
  ultimately show ?thesis
    unfolding valid_state_def eq using False by (simp add: not_less) (meson not_less)
qed

text \<open>
  Claim C5. An input with a negative entry in the allocation matrix, the request matrix
  or the available vector is rejected: with the shape message when its shape is wrong
  (shape errors come first), with the message for matrix values when a matrix entry is
  negative, and with the message for available values otherwise. Conversely a
  well-shaped input without negative entries is accepted with the empty reason, and the
  validator raises nothing in either case.
\<close>

theorem validate_inputs_rejects_negatives:
  fixes n m :: int and allocation request :: "int list list" and available :: "int list"
  defines "n_by_m \<equiv> \<lambda>mat. int (length mat) = n \<and> (\<forall>row \<in> set mat. int (length row) = m)"
    and "has_negative \<equiv> \<lambda>mat. \<exists>row \<in> set mat. \<exists>x \<in> set row. x < (0::int)"
  shows "(has_negative allocation \<or> has_negative request \<or> (\<exists>x \<in> set available. x < 0) \<longrightarrow>
            validate_inputs n m allocation request available =
            Inr (False,
                 if \<not> n_by_m allocation then ''Allocation matrix must be n x m.''
                 else if \<not> n_by_m request then ''Request matrix must be n x m.''
                 else if int (length available) \<noteq> m then ''Available vector must have m elements.''
                 else if has_negative allocation \<or> has_negative request
                 then ''Values must be non-negative.''
                 else ''Available values must be non-negative.'')) \<and>
         (n_by_m allocation \<and> n_by_m request \<and> int (length available) = m \<and>
          \<not> has_negative allocation \<and> \<not> has_negative request \<and> \<not> (\<exists>x \<in> set available. x < 0) \<longrightarrow>
            validate_inputs n m allocation request available = Inr (True, ''''))"
proof (cases "bad_shape n m allocation \<or> bad_shape n m request \<or> int (length available) \<noteq> m")
  case True
  from validate_inputs_bad_shape [OF this] True show ?thesis
    unfolding n_by_m_def has_negative_def by (auto simp: bad_shape_iff)
next
  case False
  then have "\<not> bad_shape n m allocation" "\<not> bad_shape n m request" "int (length available) = m"
    by auto
  from validate_inputs_good_shape [OF this] False show ?thesis
    unfolding n_by_m_def has_negative_def by (auto simp: bad_shape_iff)
qed

theorem validate_inputs_rejects_negatives_witness:
  "validate_inputs 2 2 [[1, 0], [0, - 1]] [[0, 1], [1, 0]] [0, 0] =
     Inr (False, ''Values must be non-negative.'') \<and>
   validate_inputs 2 2 [[1, 0], [0, 1]] [[0, 1], [- 3, 0]] [0, 0] =
     Inr (False, ''Values must be non-negative.'') \<and>
   validate_inputs 2 2 [[1, 0], [0, 1]] [[0, 1], [1, 0]] [0, - 2] =
     Inr (False, ''Available values must be non-negative.'') \<and>
   validate_inputs 2 2 [[1, 0], [0, - 1]] [[0, 1], [1, 0]] [0] =
     Inr (False, ''Available vector must have m elements.'') \<and>
   validate_inputs 2 2 [[1, 0], [0, 1]] [[0, 1], [1, 0]] [0, 0] = Inr (True, '''')"
  using validate_inputs_rejects_negatives [of "[[1, 0], [0, - 1]]" "[[0, 1], [1, 0]]" "[0, 0]" 2 2]
    validate_inputs_rejects_negatives [of "[[1, 0], [0, 1]]" "[[0, 1], [- 3, 0]]" "[0, 0]" 2 2]
    validate_inputs_rejects_negatives [of "[[1, 0], [0, 1]]" "[[0, 1], [1, 0]]" "[0, - 2]" 2 2]
    validate_inputs_rejects_negatives [of "[[1, 0], [0, - 1]]" "[[0, 1], [1, 0]]" "[0]" 2 2]
    validate_inputs_rejects_negatives [of "[[1, 0], [0, 1]]" "[[0, 1], [1, 0]]" "[0, 0]" 2 2]
  by simp

section \<open>Properties of detect_deadlock\<close>

lemma valid_state_lengths:
  assumes "valid_state n m allocation request available"
  shows "length allocation = nat n" "length request = nat n" "length available = nat m"
  using assms by (auto simp: valid_state_iff bad_shape_iff)

lemma valid_state_rows:
  assumes "valid_state n m allocation request available" "i < nat n"
  shows "length (allocation ! i) = nat m" "length (request ! i) = nat m"
  using assms good_shape_nth [of n m allocation i] good_shape_nth [of n m request i]
  by (auto simp: valid_state_iff)

lemma valid_state_allocation_nonneg:
  assumes "valid_state n m allocation request available" "i < nat n" "j < nat m"
  shows "0 \<le> allocation ! i ! j"
proof -
  from assms valid_state_lengths(1) [OF assms(1)] valid_state_rows(1) [OF assms(1,2)]
  have "allocation ! i \<in> set allocation" "allocation ! i ! j \<in> set (allocation ! i)"
    by auto
  with assms(1) show ?thesis by (auto simp: valid_state_iff)
qed

lemma request_fits_in_range:
  assumes "i < length request" "\<forall>j \<in> set js. j < length (request ! i) \<and> j < length work"
  shows "request_fits request work i js = Inr (\<forall>j \<in> set js. request ! i ! j \<le> work ! j)"
  using assms by (induction js) auto

lemma released_in_range:
  assumes "i < length allocation" "\<forall>j \<in> set js. j < length (allocation ! i) \<and> j < length work"
  shows "released work allocation i js = Inr (map (\<lambda>j. work ! j + allocation ! i ! j) js)"
  using assms by (induction js) auto

lemma visit_valid:
  assumes v: "valid_state n m allocation request available"
    and i: "i < nat n" and w: "length work = nat m" and f: "length finish = nat n"
  shows "visit m allocation request i (work, finish, found) =
         Inr (if \<not> finish ! i \<and> can_finish m request work i
              then (map (\<lambda>j. work ! j + allocation ! i ! j) [0..<nat m], finish[i := True], True)
              else (work, finish, found))"
proof -
  have "request_fits request work i (py_range m) =
        Inr (\<forall>j \<in> set (py_range m). request ! i ! j \<le> work ! j)"
    using valid_state_lengths [OF v] valid_state_rows [OF v i] i w
    by (intro request_fits_in_range) auto
  moreover have "released work allocation i (py_range m) =
        Inr (map (\<lambda>j. work ! j + allocation ! i ! j) (py_range m))"
    using valid_state_lengths [OF v] valid_state_rows [OF v i] i w
    by (intro released_in_range) auto
  ultimately show ?thesis
    using i f by (auto simp: visit.simps can_finish_def py_range_def)
qed

lemma finite_finished_set [simp]: "finite (finished_set finish)"
  by (simp add: finished_set_def)

lemma finished_set_bound: "i \<in> finished_set finish \<Longrightarrow> i < length finish"
  by (simp add: finished_set_def)

lemma finished_set_update:
  "i < length finish \<Longrightarrow> finished_set (finish[i := True]) = insert i (finished_set finish)"
  by (auto simp: finished_set_def nth_list_update)

lemma finished_set_replicate [simp]: "finished_set (replicate k False) = {}"
  by (auto simp: finished_set_def)

lemma finished_set_eqD:
  assumes "finished_set f = finished_set g" "length f = length g"
  shows "f = g"
proof (rule nth_equalityI)
  show "length f = length g" by fact
next
  fix i assume "i < length f"
  with assms have "i \<in> finished_set f \<longleftrightarrow> f ! i" "i \<in> finished_set g \<longleftrightarrow> g ! i"
    by (auto simp: finished_set_def)
  with assms(1) show "f ! i = g ! i" by simp
qed

lemma length_work_of [simp]: "length (work_of allocation available F) = length available"
  by (simp add: work_of_def)

lemma work_of_empty [simp]: "work_of allocation available {} = available"
  by (simp add: work_of_def map_nth)

lemma work_of_nth:
  "j < length available \<Longrightarrow>
   work_of allocation available F ! j = available ! j + (\<Sum>i \<in> F. allocation ! i ! j)"
  by (simp add: work_of_def)

lemma work_of_insert:
  assumes "finite F" "i \<notin> F"
  shows "work_of allocation available (insert i F) =
         map (\<lambda>j. work_of allocation available F ! j + allocation ! i ! j) [0..<length available]"
  using assms by (simp add: work_of_def)

lemma work_of_mono:
  assumes "finite G" "F \<subseteq> G" "j < length available"
    and "\<forall>i \<in> G. 0 \<le> allocation ! i ! j"
  shows "work_of allocation available F ! j \<le> work_of allocation available G ! j"
proof -
  have "(\<Sum>i \<in> F. allocation ! i ! j) \<le> (\<Sum>i \<in> G. allocation ! i ! j)"
    using assms by (intro sum_mono2) auto
  with assms(3) show ?thesis by (simp add: work_of_nth)
qed

lemma can_finish_mono:
  assumes "can_finish m request work i" "\<forall>j < nat m. work ! j \<le> work' ! j"
  shows "can_finish m request work' i"
  using assms unfolding can_finish_def by (meson order_trans)

text \<open>What one visit does to a state that satisfies the invariant.\<close>

lemma visit_inv:
  assumes v: "valid_state n m allocation request available"
    and i: "i < nat n" and inv: "detect_inv n allocation available work finish"
  shows "\<exists>work' finish' found'.
           visit m allocation request i (work, finish, found) = Inr (work', finish', found') \<and>
           detect_inv n allocation available work' finish' \<and>
           list_all2 (\<le>) work work' \<and>
           ((work', finish', found') = (work, finish, found) \<and>
              (finish ! i \<or> \<not> can_finish m request work i) \<or>
            found' \<and> \<not> finish ! i \<and> can_finish m request work i \<and>
              finished_set finish' = insert i (finished_set finish))"
proof -
  note len = valid_state_lengths [OF v]
  from inv have f: "length finish = nat n"
    and w: "work = work_of allocation available (finished_set finish)"
    by (simp_all add: detect_inv_def)
  from w len have lw: "length work = nat m" by simp
  note eq = visit_valid [OF v i lw f, of found]
  show ?thesis
  proof (cases "\<not> finish ! i \<and> can_finish m request work i")
    case False
    with eq inv show ?thesis by (auto simp: list_all2_refl)
  next
    case True
    let ?work' = "map (\<lambda>j. work ! j + allocation ! i ! j) [0..<nat m]"
    from True i f have notin: "i \<notin> finished_set finish" by (simp add: finished_set_def)
    have fs: "finished_set (finish[i := True]) = insert i (finished_set finish)"
      using i f by (simp add: finished_set_update)
    have "?work' = work_of allocation available (insert i (finished_set finish))"
      using notin len w by (simp add: work_of_insert)
    then have "detect_inv n allocation available ?work' (finish[i := True])"
      using f fs by (simp add: detect_inv_def)
    moreover have "list_all2 (\<le>) work ?work'"
      using lw valid_state_allocation_nonneg [OF v i]
      by (auto simp: list_all2_conv_all_nth)
    ultimately show ?thesis using eq True fs by auto
  qed
qed

text \<open>Invariant rules for one pass and for the whole loop.\<close>

lemma pass_invariant:
  assumes step: "\<And>i s. i \<in> set order \<Longrightarrow> P s \<Longrightarrow> \<exists>s'. visit m allocation request i s = Inr s' \<and> P s'"
    and "P s"
  shows "\<exists>s'. pass m allocation request order s = Inr s' \<and> P s'"
  using assms
proof (induction order arbitrary: s)
  case Nil
  then show ?case by simp
next
  case (Cons i order)
  from Cons.prems(1) [of i s] Cons.prems(2) obtain s1 where
    s1: "visit m allocation request i s = Inr s1" "P s1" by auto
  have "\<exists>s'. pass m allocation request order s1 = Inr s' \<and> P s'"
    by (rule Cons.IH) (use Cons.prems(1) s1 in auto)
  with s1 show ?case by simp
qed

lemma fixed_point_invariant:
  assumes "\<And>i work finish found. i \<in> set order \<Longrightarrow> Q work finish \<Longrightarrow>
            \<exists>work' finish' found'.
              visit m allocation request i (work, finish, found) = Inr (work', finish', found') \<and>
              Q work' finish'"
    and "Q work finish"
  shows "\<exists>work' finish'. fixed_point m allocation request order (work, finish) = Inr (work', finish') \<and>
                         Q work' finish'"
  using assms
proof (induction m allocation request order "(work, finish)" arbitrary: work finish
       rule: fixed_point.induct)
  case (1 m allocation request order work finish)
  note step = "1.prems"(1)
  have "\<exists>s'. pass m allocation request order (work, finish, False) = Inr s' \<and>
             Q (fst s') (fst (snd s'))"
  proof (rule pass_invariant [where P = "\<lambda>s. Q (fst s) (fst (snd s))"])
    show "Q (fst (work, finish, False)) (fst (snd (work, finish, False)))"
      using "1.prems"(2) by simp
  next
    fix i and s :: detect_state
    assume a: "i \<in> set order" "Q (fst s) (fst (snd s))"
    obtain w f fd where s: "s = (w, f, fd)" by (cases s)
    from a s have "Q w f" by simp
    from step [OF a(1) this, of fd] s obtain w' f' fd' where
      "visit m allocation request i s = Inr (w', f', fd')" "Q w' f'" by auto
    then show "\<exists>s'. visit m allocation request i s = Inr s' \<and> Q (fst s') (fst (snd s'))"
      by simp
  qed
  then obtain w1 f1 fd1 where
    p: "pass m allocation request order (work, finish, False) = Inr (w1, f1, fd1)" and q: "Q w1 f1"
    by auto
  show ?case
  proof (cases fd1)
    case True
    from "1.hyps" [OF p refl refl True step q] p True show ?thesis
      by (subst fixed_point.simps) simp
  next
    case False
    with p q show ?thesis by (subst fixed_point.simps) simp
  qed
qed

text \<open>A pass that finds nothing changes nothing, and the loop ends in such a state.\<close>

lemma visit_found_cases:
  assumes "visit m allocation request i (work, finish, found) = Inr (work', finish', found')"
  shows "(work', finish', found') = (work, finish, found) \<or> found'"
  using assms by (auto simp: visit.simps split: sum.splits if_splits)

lemma pass_found_mono:
  "pass m allocation request order (work, finish, True) = Inr (work', finish', found') \<Longrightarrow> found'"
proof (induction order arbitrary: work finish)
  case Nil
  then show ?case by simp
next
  case (Cons i order)
  from Cons.prems obtain w1 f1 fd1 where
    v: "visit m allocation request i (work, finish, True) = Inr (w1, f1, fd1)" and
    p: "pass m allocation request order (w1, f1, fd1) = Inr (work', finish', found')"
    by (auto split: sum.splits)
  from visit_found_cases [OF v] have fd1 by auto
  with p Cons.IH show ?case by simp
qed

lemma pass_not_found:
  assumes "pass m allocation request order (work, finish, False) = Inr (work', finish', False)"
  shows "work' = work \<and> finish' = finish \<and>
         (\<forall>i \<in> set order. visit m allocation request i (work, finish, False) = Inr (work, finish, False))"
  using assms
proof (induction order)
  case Nil
  then show ?case by simp
next
  case (Cons i order)
  from Cons.prems obtain w1 f1 fd1 where
    v: "visit m allocation request i (work, finish, False) = Inr (w1, f1, fd1)" and
    p: "pass m allocation request order (w1, f1, fd1) = Inr (work', finish', False)"
    by (auto split: sum.splits)
  have "\<not> fd1" using pass_found_mono [of m allocation request order w1 f1 work' finish' False] p
    by auto
  with visit_found_cases [OF v] have "(w1, f1, fd1) = (work, finish, False)" by auto
  with v p Cons.IH show ?case by simp
qed

lemma fixed_point_stable:
  "fixed_point m allocation request order (work, finish) = Inr (work', finish') \<Longrightarrow>
   pass m allocation request order (work', finish', False) = Inr (work', finish', False)"
proof (induction m allocation request order "(work, finish)" arbitrary: work finish
       rule: fixed_point.induct)
  case (1 m allocation request order work finish)
  note fp = "1.prems" [unfolded fixed_point.simps [of m allocation request order work finish]]
  from fp obtain w1 f1 fd1 where
    p: "pass m allocation request order (work, finish, False) = Inr (w1, f1, fd1)"
    by (auto split: sum.splits)
  show ?case
  proof (cases fd1)
    case True
    with fp p have "fixed_point m allocation request order (w1, f1) = Inr (work', finish')"
      by simp
    from "1.hyps" [OF p refl refl True this] show ?thesis .
  next
    case False
    with fp p have "work' = w1" "finish' = f1" by simp_all
    with pass_not_found [of m allocation request order work finish w1 f1] p False
    show ?thesis by simp
  qed
qed

text \<open>The loop on a valid state, for any list of processes below \<open>n\<close>.\<close>

lemma detect_inv_initial:
  "detect_inv n allocation available available (replicate (nat n) False)"
  by (simp add: detect_inv_def)

lemma fixed_point_below:
  assumes v: "valid_state n m allocation request available"
    and order: "set order \<subseteq> {i. i < nat n}"
    and S: "S \<subseteq> {i. i < nat n}"
    and closed: "\<forall>i < nat n. can_finish m request (work_of allocation available S) i \<longrightarrow> i \<in> S"
  shows "\<exists>work finish.
           fixed_point m allocation request order (available, replicate (nat n) False) =
             Inr (work, finish) \<and>
           detect_inv n allocation available work finish \<and> finished_set finish \<subseteq> S"
proof -
  let ?Q = "\<lambda>work finish. detect_inv n allocation available work finish \<and> finished_set finish \<subseteq> S"
  have finS: "finite S" using S by (rule finite_subset) simp
  have "\<exists>work' finish'.
          fixed_point m allocation request order (available, replicate (nat n) False) =
            Inr (work', finish') \<and> ?Q work' finish'"
  proof (rule fixed_point_invariant [where Q = ?Q])
    show "?Q available (replicate (nat n) False)"
      by (simp add: detect_inv_initial)
  next
    fix i work finish found
    assume i: "i \<in> set order" and q: "?Q work finish"
    from i order have i': "i < nat n" by auto
    from q have inv: "detect_inv n allocation available work finish"
      and sub: "finished_set finish \<subseteq> S" by simp_all
    from visit_inv [OF v i' inv, of found] obtain work' finish' found' where
      vis: "visit m allocation request i (work, finish, found) = Inr (work', finish', found')"
      and inv': "detect_inv n allocation available work' finish'"
      and cases: "(work', finish', found') = (work, finish, found) \<or>
                  can_finish m request work i \<and> finished_set finish' = insert i (finished_set finish)"
      by blast
    have "finished_set finish' \<subseteq> S"
    proof (cases "(work', finish', found') = (work, finish, found)")
      case True
      with sub show ?thesis by simp
    next
      case False
      with cases have cf: "can_finish m request work i"
        and fs: "finished_set finish' = insert i (finished_set finish)" by auto
      have "\<forall>j < nat m. work ! j \<le> work_of allocation available S ! j"
      proof (intro allI impI)
        fix j assume j: "j < nat m"
        have "work_of allocation available (finished_set finish) ! j \<le>
              work_of allocation available S ! j"
        proof (rule work_of_mono [OF finS sub])
          show "j < length available" using j valid_state_lengths [OF v] by simp
          show "\<forall>i \<in> S. 0 \<le> allocation ! i ! j"
            using S j valid_state_allocation_nonneg [OF v] by auto
        qed
        with inv show "work ! j \<le> work_of allocation available S ! j"
          by (simp add: detect_inv_def)
      qed
      from can_finish_mono [OF cf this] closed i' have "i \<in> S" by simp
      with fs sub show ?thesis by simp
    qed
    with vis inv' show "\<exists>work' finish' found'.
        visit m allocation request i (work, finish, found) = Inr (work', finish', found') \<and>
        ?Q work' finish'" by blast
  qed
  then show ?thesis by blast
qed

lemma fixed_point_valid:
  assumes v: "valid_state n m allocation request available"
    and order: "set order \<subseteq> {i. i < nat n}"
  shows "\<exists>work finish.
           fixed_point m allocation request order (available, replicate (nat n) False) =
             Inr (work, finish) \<and>
           detect_inv n allocation available work finish"
  using fixed_point_below [OF v order, of "{i. i < nat n}"] by auto

text \<open>
  When every process below \<open>n\<close> is visited in a pass, no unfinished process can finish
  with the final \<open>work\<close>.
\<close>

lemma fixed_point_closed:
  assumes v: "valid_state n m allocation request available"
    and order: "set order = {i. i < nat n}"
    and fp: "fixed_point m allocation request order (available, replicate (nat n) False) =
             Inr (work, finish)"
    and inv: "detect_inv n allocation available work finish"
  shows "\<forall>i < nat n. can_finish m request work i \<longrightarrow> finish ! i"
proof (intro allI impI)
  fix i assume i: "i < nat n" and cf: "can_finish m request work i"
  from inv have f: "length finish = nat n" and w: "length work = nat m"
    using valid_state_lengths [OF v] by (simp_all add: detect_inv_def)
  from fixed_point_stable [OF fp]
  have "pass m allocation request order (work, finish, False) = Inr (work, finish, False)" .
  from pass_not_found [OF this] i order
  have "visit m allocation request i (work, finish, False) = Inr (work, finish, False)" by simp
  with visit_valid [OF v i w f, of False] cf show "finish ! i"
    by (auto split: if_splits)
qed

lemma fixed_point_order_independent:
  assumes v: "valid_state n m allocation request available"
    and o1: "set order1 = {i. i < nat n}" and o2: "set order2 = {i. i < nat n}"
  shows "\<exists>work finish.
           fixed_point m allocation request order1 (available, replicate (nat n) False) =
             Inr (work, finish) \<and>
           fixed_point m allocation request order2 (available, replicate (nat n) False) =
             Inr (work, finish) \<and>
           detect_inv n allocation available work finish"
proof -
  from o1 o2 have s1: "set order1 \<subseteq> {i. i < nat n}" and s2: "set order2 \<subseteq> {i. i < nat n}"
    by simp_all
  from fixed_point_valid [OF v s1] obtain w1 f1 where
    fp1: "fixed_point m allocation request order1 (available, replicate (nat n) False) = Inr (w1, f1)"
    and inv1: "detect_inv n allocation available w1 f1" by blast
  from fixed_point_valid [OF v s2] obtain w2 f2 where
    fp2: "fixed_point m allocation request order2 (available, replicate (nat n) False) = Inr (w2, f2)"
    and inv2: "detect_inv n allocation available w2 f2" by blast
  have below: "finished_set f \<subseteq> finished_set g"
    if fpo: "fixed_point m allocation request order (available, replicate (nat n) False) = Inr (w, f)"
      and so: "set order \<subseteq> {i. i < nat n}"
      and fpo': "fixed_point m allocation request order' (available, replicate (nat n) False) = Inr (u, g)"
      and so': "set order' = {i. i < nat n}"
      and invg: "detect_inv n allocation available u g"
    for order order' w f u g
  proof -
    from invg have lg: "length g = nat n"
      and ug: "u = work_of allocation available (finished_set g)"
      by (simp_all add: detect_inv_def)
    have S: "finished_set g \<subseteq> {i. i < nat n}"
      using lg finished_set_bound [of _ g] by auto
    have closed: "\<forall>i < nat n. can_finish m request (work_of allocation available (finished_set g)) i
                    \<longrightarrow> i \<in> finished_set g"
      using fixed_point_closed [OF v so' fpo' invg] lg ug by (simp add: finished_set_def)
    from fixed_point_below [OF v so S closed] fpo show ?thesis by auto
  qed
  from below [OF fp1 s1 fp2 o2 inv2] below [OF fp2 s2 fp1 o1 inv1]
  have "finished_set f1 = finished_set f2" by simp
  moreover from inv1 inv2 have "length f1 = length f2" by (simp add: detect_inv_def)
  ultimately have "f1 = f2" by (rule finished_set_eqD)
  with inv1 inv2 have "w1 = w2" by (simp add: detect_inv_def)
  with fp1 fp2 \<open>f1 = f2\<close> inv1 show ?thesis by simp
qed

lemma set_perm_py_range:
  assumes "mset order = mset (py_range n)"
  shows "set order = {i. i < nat n}"
proof -
  have "set order = set (py_range n)" using assms by (rule mset_eq_setD)
  also have "\<dots> = {i. i < nat n}" unfolding py_range_def by auto
  finally show ?thesis .
qed

text \<open>
  Claim C1. On a valid state, the fixed-point loop run with the passes visiting the
  processes in any permutation \<open>order\<close> of \<open>range(n)\<close> returns, and it returns the same
  final \<open>work\<close> and \<open>finish\<close> as the index-order loop of \<open>detect_deadlock\<close>; so the
  detection result (the flag, the deadlocked processes and the message) is the same.
\<close>

theorem detection_order_independent:
  assumes "valid_state n m allocation request available"
    and "mset order = mset (py_range n)"
  shows "\<exists>work finish.
           fixed_point m allocation request order (available, replicate (nat n) False) =
             Inr (work, finish) \<and>
           fixed_point m allocation request (py_range n) (available, replicate (nat n) False) =
             Inr (work, finish) \<and>
           detect_deadlock_in_order order n m allocation request available =
             detect_deadlock n m allocation request available"
proof -
  have "set (py_range n) = {i. i < nat n}" by (auto simp: py_range_def)
  from fixed_point_order_independent [OF assms(1) set_perm_py_range [OF assms(2)] this]
  obtain work finish where
    a: "fixed_point m allocation request order (available, replicate (nat n) False) =
          Inr (work, finish)" and
    b: "fixed_point m allocation request (py_range n) (available, replicate (nat n) False) =
          Inr (work, finish)"
    by blast
  have "detect_deadlock_in_order order n m allocation request available =
        detect_deadlock n m allocation request available"
    by (simp add: detect_deadlock_in_order_def detect_deadlock_def a b)
  with a b show ?thesis by blast
qed

lemma unfinished_in_range:
  "\<forall>i \<in> set is. i < length finish \<Longrightarrow>
   unfinished finish is = Inr (filter (\<lambda>i. \<not> finish ! i) is)"
  by (induction "is") auto

lemma detect_deadlock_valid:
  assumes v: "valid_state n m allocation request available"
  shows "\<exists>work finish.
           fixed_point m allocation request (py_range n) (available, replicate (nat n) False) =
             Inr (work, finish) \<and>
           detect_inv n allocation available work finish \<and>
           (\<forall>i < nat n. can_finish m request work i \<longrightarrow> finish ! i) \<and>
           detect_deadlock n m allocation request available =
             (if filter (\<lambda>i. \<not> finish ! i) [0..<nat n] \<noteq> []
              then Inr (True, filter (\<lambda>i. \<not> finish ! i) [0..<nat n],
                        ''Deadlock detected in processes: '' @
                        py_str_list (filter (\<lambda>i. \<not> finish ! i) [0..<nat n]) @ ''.'')
              else Inr (False, [], ''No deadlock detected.''))"
proof -
  have o: "set (py_range n) = {i. i < nat n}" by (auto simp: py_range_def)
  then have o': "set (py_range n) \<subseteq> {i. i < nat n}" by simp
  from fixed_point_valid [OF v o'] obtain work finish where
    fp: "fixed_point m allocation request (py_range n) (available, replicate (nat n) False) =
           Inr (work, finish)"
    and inv: "detect_inv n allocation available work finish" by blast
  note closed = fixed_point_closed [OF v o fp inv]
  from inv have "length finish = nat n" by (simp add: detect_inv_def)
  then have "unfinished finish (py_range n) = Inr (filter (\<lambda>i. \<not> finish ! i) [0..<nat n])"
    using unfinished_in_range [of "py_range n" finish] by (simp add: py_range_def)
  then have "detect_deadlock n m allocation request available =
             (if filter (\<lambda>i. \<not> finish ! i) [0..<nat n] \<noteq> []
              then Inr (True, filter (\<lambda>i. \<not> finish ! i) [0..<nat n],
                        ''Deadlock detected in processes: '' @
                        py_str_list (filter (\<lambda>i. \<not> finish ! i) [0..<nat n]) @ ''.'')
              else Inr (False, [], ''No deadlock detected.''))"
    by (simp add: detect_deadlock_def fp)
  with fp inv closed show ?thesis by blast
qed

lemma detect_deadlock_in_order_range:
  "detect_deadlock_in_order (py_range n) n m allocation request available =
   detect_deadlock n m allocation request available"
  by (simp add: detect_deadlock_in_order_def detect_deadlock_def)

text \<open>The deadlocked processes are reported in ascending order, each once.\<close>

lemma detect_deadlock_ascending:
  assumes "valid_state n m allocation request available"
    and "detect_deadlock n m allocation request available = Inr (is_deadlock, deadlocked, message)"
  shows "sorted deadlocked \<and> distinct deadlocked \<and> set deadlocked \<subseteq> {i. i < nat n}"
proof -
  from detect_deadlock_valid [OF assms(1)] obtain finish where
    "detect_deadlock n m allocation request available =
       (if filter (\<lambda>i. \<not> finish ! i) [0..<nat n] \<noteq> []
        then Inr (True, filter (\<lambda>i. \<not> finish ! i) [0..<nat n],
                  ''Deadlock detected in processes: '' @
                  py_str_list (filter (\<lambda>i. \<not> finish ! i) [0..<nat n]) @ ''.'')
        else Inr (False, [], ''No deadlock detected.''))"
    by blast
  with assms(2) have "deadlocked = filter (\<lambda>i. \<not> finish ! i) [0..<nat n]"
    by (simp split: if_splits)
  then show ?thesis by (auto simp: sorted_wrt_filter)
qed

text \<open>
  Claim C3. On a valid state with \<open>n = 0\<close> or \<open>m = 0\<close>, \<open>detect_deadlock\<close> returns
  \<open>isDeadlock = False\<close> with the empty list of deadlocked processes.
\<close>

theorem detect_deadlock_trivial_state:
  assumes "valid_state n m allocation request available" and "n = 0 \<or> m = 0"
  shows "detect_deadlock n m allocation request available =
         Inr (False, [], ''No deadlock detected.'')"
proof -
  from detect_deadlock_valid [OF assms(1)] obtain work finish where
    closed: "\<forall>i < nat n. can_finish m request work i \<longrightarrow> finish ! i" and
    dd: "detect_deadlock n m allocation request available =
             (if filter (\<lambda>i. \<not> finish ! i) [0..<nat n] \<noteq> []
              then Inr (True, filter (\<lambda>i. \<not> finish ! i) [0..<nat n],
                        ''Deadlock detected in processes: '' @
                        py_str_list (filter (\<lambda>i. \<not> finish ! i) [0..<nat n]) @ ''.'')
              else Inr (False, [], ''No deadlock detected.''))"
    by blast
  have "filter (\<lambda>i. \<not> finish ! i) [0..<nat n] = []"
  proof (cases "n = 0")
    case True
    then show ?thesis by simp
  next
    case False
    with assms(2) have "m = 0" by simp
    then have "can_finish m request work i" for i by (simp add: can_finish_def)
    with closed have "\<forall>i < nat n. finish ! i" by simp
    then show ?thesis by (simp add: filter_empty_conv)
  qed
  with dd show ?thesis by simp
qed

theorem detect_deadlock_trivial_state_witness:
  "valid_state 0 0 [] [] [] \<and>
   detect_deadlock 0 0 [] [] [] = Inr (False, [], ''No deadlock detected.'') \<and>
   valid_state 3 0 [[], [], []] [[], [], []] [] \<and>
   detect_deadlock 3 0 [[], [], []] [[], [], []] [] = Inr (False, [], ''No deadlock detected.'') \<and>
   valid_state 0 2 [] [] [4, 1] \<and>
   detect_deadlock 0 2 [] [] [4, 1] = Inr (False, [], ''No deadlock detected.'')"
proof -
  have a: "valid_state 0 0 [] [] []" by code_simp
  have b: "valid_state 3 0 [[], [], []] [[], [], []] []" by code_simp
  have c: "valid_state 0 2 [] [] [4, 1]" by code_simp
  from a b c detect_deadlock_trivial_state [OF a] detect_deadlock_trivial_state [OF b]
    detect_deadlock_trivial_state [OF c]
  show ?thesis by simp
qed

text \<open>
  Claim C6. On a valid state \<open>detect_deadlock\<close> returns a triple whose flag is true
  exactly when its list of deadlocked processes is non-empty; the list holds the
  processes left unfinished by the loop; the message is
  \<^verbatim>\<open>Deadlock detected in processes: [i, j, ...].\<close> naming them when there are some, and
  \<^verbatim>\<open>No deadlock detected.\<close> with the empty list otherwise.
\<close>

theorem detect_deadlock_result_format:
  assumes "valid_state n m allocation request available"
  shows "\<exists>deadlocked.
           detect_deadlock n m allocation request available =
             Inr (deadlocked \<noteq> [], deadlocked,
                  if deadlocked \<noteq> []
                  then ''Deadlock detected in processes: ['' @
                       py_join '', '' (map py_str_nat deadlocked) @ ''].''
                  else ''No deadlock detected.'') \<and>
           (\<exists>work finish.
              fixed_point m allocation request (py_range n) (available, replicate (nat n) False) =
                Inr (work, finish) \<and>
              length finish = nat n \<and>
              deadlocked = filter (\<lambda>i. \<not> finish ! i) [0..<nat n])"
proof -
  from detect_deadlock_valid [OF assms] obtain work finish where
    fp: "fixed_point m allocation request (py_range n) (available, replicate (nat n) False) =
           Inr (work, finish)" and
    inv: "detect_inv n allocation available work finish" and
    dd: "detect_deadlock n m allocation request available =
             (if filter (\<lambda>i. \<not> finish ! i) [0..<nat n] \<noteq> []
              then Inr (True, filter (\<lambda>i. \<not> finish ! i) [0..<nat n],
                        ''Deadlock detected in processes: '' @
                        py_str_list (filter (\<lambda>i. \<not> finish ! i) [0..<nat n]) @ ''.'')
              else Inr (False, [], ''No deadlock detected.''))"
    by blast
  let ?d = "filter (\<lambda>i. \<not> finish ! i) [0..<nat n]"
  from inv have len: "length finish = nat n" by (simp add: detect_inv_def)
  have "detect_deadlock n m allocation request available =
             Inr (?d \<noteq> [], ?d,
                  if ?d \<noteq> []
                  then ''Deadlock detected in processes: ['' @
                       py_join '', '' (map py_str_nat ?d) @ ''].''
                  else ''No deadlock detected.'')"
    unfolding dd by (simp add: py_str_list_def)
  with fp len show ?thesis by blast
qed

lemma py_str_nat_digit: "k < 10 \<Longrightarrow> py_str_nat k = [digit_char k]"
  by (simp add: py_str_nat.simps)

theorem detect_deadlock_result_format_witness:
  "valid_state 3 1 [[1], [1], [1]] [[1], [1], [1]] [0] \<and>
   detect_deadlock 3 1 [[1], [1], [1]] [[1], [1], [1]] [0] =
     Inr (True, [0, 1, 2], ''Deadlock detected in processes: [0, 1, 2].'')"
proof -
  have v: "valid_state 3 1 [[1], [1], [1]] [[1], [1], [1]] [0]" by code_simp
  have "detect_deadlock 3 1 [[1], [1], [1]] [[1], [1], [1]] [0] =
     Inr (True, [0, 1, 2], ''Deadlock detected in processes: [0, 1, 2].'')"
    by code_simp
  with v detect_deadlock_result_format [OF v] show ?thesis by simp
qed

text \<open>A bound on the passes: one more than the number of unfinished processes.\<close>

lemma fixed_point_fuel_enough:
  "unfinished_count finish < k \<Longrightarrow>
   fixed_point_fuel k m allocation request order (work, finish) =
   Some (fixed_point m allocation request order (work, finish))"
proof (induction m allocation request order "(work, finish)" arbitrary: work finish k
       rule: fixed_point.induct)
  case (1 m allocation request order work finish)
  from "1.prems" obtain k' where k: "k = Suc k'" by (cases k) auto
  show ?case
  proof (cases "pass m allocation request order (work, finish, False)")
    case (Inl e)
    then show ?thesis unfolding k by (subst fixed_point.simps) simp
  next
    case (Inr s)
    obtain w1 f1 fd1 where s: "s = (w1, f1, fd1)" by (cases s)
    show ?thesis
    proof (cases fd1)
      case True
      from pass_unfinished [OF Inr [unfolded s]] True
      have "unfinished_count f1 < unfinished_count finish" by simp
      with "1.prems" k have "unfinished_count f1 < k'" by simp
      from "1.hyps" [OF Inr [unfolded s] refl refl True this] Inr s True
      show ?thesis unfolding k by (subst fixed_point.simps) simp
    next
      case False
      with Inr s show ?thesis unfolding k by (subst fixed_point.simps) simp
    qed
  qed
qed

lemma unfinished_count_replicate [simp]: "unfinished_count (replicate k False) = k"
  by (simp add: unfinished_count_def)

text \<open>
  Claim C9. On a valid state the call returns a result; the loop is left within
  \<open>n + 1\<close> passes (the loop bounded by \<open>n + 1\<close> passes gives the result of the unbounded
  one); and every pass either marks a process, lowering the number of unfinished
  processes, or changes nothing and is the last one.
\<close>

theorem detect_deadlock_terminates:
  assumes "valid_state n m allocation request available"
  shows "(\<exists>result. detect_deadlock n m allocation request available = Inr result) \<and>
         fixed_point_fuel (nat n + 1) m allocation request (py_range n)
             (available, replicate (nat n) False) =
           Some (fixed_point m allocation request (py_range n)
                   (available, replicate (nat n) False)) \<and>
         (\<forall>work finish work' finish' found.
            pass m allocation request (py_range n) (work, finish, False) =
              Inr (work', finish', found) \<longrightarrow>
            (if found then unfinished_count finish' < unfinished_count finish
             else work' = work \<and> finish' = finish))"
proof (intro conjI allI impI)
  from detect_deadlock_valid [OF assms] obtain finish where
    dd: "detect_deadlock n m allocation request available =
             (if filter (\<lambda>i. \<not> finish ! i) [0..<nat n] \<noteq> []
              then Inr (True, filter (\<lambda>i. \<not> finish ! i) [0..<nat n],
                        ''Deadlock detected in processes: '' @
                        py_str_list (filter (\<lambda>i. \<not> finish ! i) [0..<nat n]) @ ''.'')
              else Inr (False, [], ''No deadlock detected.''))"
    by blast
  have "detect_deadlock n m allocation request available =
          Inr (if filter (\<lambda>i. \<not> finish ! i) [0..<nat n] \<noteq> []
               then (True, filter (\<lambda>i. \<not> finish ! i) [0..<nat n],
                     ''Deadlock detected in processes: '' @
                     py_str_list (filter (\<lambda>i. \<not> finish ! i) [0..<nat n]) @ ''.'')
               else (False, [], ''No deadlock detected.''))"
    unfolding dd by simp
  then show "\<exists>result. detect_deadlock n m allocation request available = Inr result" ..
next
  show "fixed_point_fuel (nat n + 1) m allocation request (py_range n)
             (available, replicate (nat n) False) =
           Some (fixed_point m allocation request (py_range n)
                   (available, replicate (nat n) False))"
    by (rule fixed_point_fuel_enough) simp
next
  fix work finish work' finish' found
  assume p: "pass m allocation request (py_range n) (work, finish, False) =
              Inr (work', finish', found)"
  show "if found then unfinished_count finish' < unfinished_count finish
        else work' = work \<and> finish' = finish"
  proof (cases found)
    case True
    with pass_unfinished [OF p] show ?thesis by simp
  next
    case False
    with pass_not_found [of m allocation request "py_range n" work finish work' finish'] p
    show ?thesis by simp
  qed
qed

theorem detect_deadlock_terminates_witness:
  "valid_state 3 1 [[1], [1], [1]] [[3], [2], [1]] [1] \<and>
   fixed_point_fuel 4 1 [[1], [1], [1]] [[3], [2], [1]] (py_range 3) ([1], replicate 3 False) =
     Some (Inr ([4], [True, True, True])) \<and>
   fixed_point_fuel 3 1 [[1], [1], [1]] [[3], [2], [1]] (py_range 3) ([1], replicate 3 False) =
     None \<and>
   detect_deadlock 3 1 [[1], [1], [1]] [[3], [2], [1]] [1] =
     Inr (False, [], ''No deadlock detected.'')"
proof -
  have v: "valid_state 3 1 [[1], [1], [1]] [[3], [2], [1]] [1]" by code_simp
  have f4: "fixed_point_fuel 4 1 [[1], [1], [1]] [[3], [2], [1]] (py_range 3) ([1], replicate 3 False) =
     Some (Inr ([4], [True, True, True]))" by code_simp
  have f3: "fixed_point_fuel 3 1 [[1], [1], [1]] [[3], [2], [1]] (py_range 3) ([1], replicate 3 False) =
     None" by code_simp
  from detect_deadlock_terminates [OF v] f4
  have "fixed_point 1 [[1], [1], [1]] [[3], [2], [1]] (py_range 3) ([1], replicate (nat 3) False) =
        Inr ([4], [True, True, True])"
    by simp
  then have "detect_deadlock 3 1 [[1], [1], [1]] [[3], [2], [1]] [1] =
     Inr (False, [], ''No deadlock detected.'')"
    by (simp add: detect_deadlock_def py_range_def py_get_def upt_rec)
  with v f4 f3 show ?thesis by simp
qed

theorem detection_order_independent_witness:
  "valid_state 4 1 [[1], [1], [1], [1]] [[3], [2], [1], [9]] [1] \<and>
   mset [3, 2, 1, 0] = mset (py_range 4) \<and>
   detect_deadlock_in_order [3, 2, 1, 0] 4 1 [[1], [1], [1], [1]] [[3], [2], [1], [9]] [1] =
     Inr (True, [3], ''Deadlock detected in processes: [3].'') \<and>
   detect_deadlock 4 1 [[1], [1], [1], [1]] [[3], [2], [1], [9]] [1] =
     Inr (True, [3], ''Deadlock detected in processes: [3].'')"
proof -
  have v: "valid_state 4 1 [[1], [1], [1], [1]] [[3], [2], [1], [9]] [1]" by code_simp
  have r: "py_range 4 = [0, 1, 2, 3]" by code_simp
  have p: "mset [3, 2, 1, 0] = mset (py_range 4)" unfolding r by simp
  have d: "detect_deadlock 4 1 [[1], [1], [1], [1]] [[3], [2], [1], [9]] [1] =
     Inr (True, [3], ''Deadlock detected in processes: [3].'')" by code_simp
  from detection_order_independent [OF v p]
  have "detect_deadlock_in_order [3, 2, 1, 0] 4 1 [[1], [1], [1], [1]] [[3], [2], [1], [9]] [1] =
        detect_deadlock 4 1 [[1], [1], [1], [1]] [[3], [2], [1], [9]] [1]"
    by blast
  with d v p show ?thesis by simp
qed

section \<open>Properties of suggest_resolution\<close>

text \<open>
  \<open>min\<close> with a key that never fails returns the first element, in list order, whose
  key is least.
\<close>

lemma min_from_first_minimum:
  assumes "\<forall>x \<in> set xs. key x = Inr (f x)"
  shows "\<exists>r pre post. min_from key best (f best) xs = Inr r \<and>
           best # xs = pre @ r # post \<and>
           (\<forall>y \<in> set pre. f r < f y) \<and> (\<forall>y \<in> set post. f r \<le> f y)"
  using assms
proof (induction xs arbitrary: best)
  case Nil
  have "[best] = [] @ best # []" by simp
  then show ?case by fastforce
next
  case (Cons x xs)
  then have kx: "key x = Inr (f x)" and rest: "\<forall>x \<in> set xs. key x = Inr (f x)" by simp_all
  show ?case
  proof (cases "f x < f best")
    case True
    from Cons.IH [OF rest, of x] obtain r pre post where
      m: "min_from key x (f x) xs = Inr r" and
      split: "x # xs = pre @ r # post" and
      pre: "\<forall>y \<in> set pre. f r < f y" and post: "\<forall>y \<in> set post. f r \<le> f y"
      by blast
    have "f r \<le> f x"
    proof (cases pre)
      case Nil
      with split show ?thesis by simp
    next
      case (Cons p ps)
      with split have "x \<in> set pre" by simp
      with pre show ?thesis by auto
    qed
    with True have "f r < f best" by simp
    with pre have "\<forall>y \<in> set (best # pre). f r < f y" by simp
    moreover from split have "best # x # xs = (best # pre) @ r # post" by simp
    moreover from m kx True have "min_from key best (f best) (x # xs) = Inr r" by simp
    ultimately show ?thesis using post by blast
  next
    case False
    from Cons.IH [OF rest, of best] obtain r pre post where
      m: "min_from key best (f best) xs = Inr r" and
      split: "best # xs = pre @ r # post" and
      pre: "\<forall>y \<in> set pre. f r < f y" and post: "\<forall>y \<in> set post. f r \<le> f y"
      by blast
    from m kx False have res: "min_from key best (f best) (x # xs) = Inr r" by simp
    show ?thesis
    proof (cases pre)
      case Nil
      with split have "r = best" "post = xs" by simp_all
      with False post have "\<forall>y \<in> set (x # xs). f r \<le> f y" by simp
      moreover from \<open>r = best\<close> have "best # x # xs = [] @ r # (x # xs)" by simp
      ultimately show ?thesis using res by fastforce
    next
      case (Cons p ps)
      with split have p: "p = best" and xs: "xs = ps @ r # post" by simp_all
      from pre Cons p have "f r < f best" by simp
      with False have "f r < f x" by simp
      with pre Cons p have "\<forall>y \<in> set (best # x # ps). f r < f y" by simp
      moreover from xs have "best # x # xs = (best # x # ps) @ r # post" by simp
      ultimately show ?thesis using res post by blast
    qed
  qed
qed

lemma py_min_key_first_minimum:
  assumes "xs \<noteq> []" "\<forall>x \<in> set xs. key x = Inr (f x)"
  shows "\<exists>r pre post. py_min_key key xs = Inr r \<and> xs = pre @ r # post \<and>
           (\<forall>y \<in> set pre. f r < f y) \<and> (\<forall>y \<in> set post. f r \<le> f y)"
proof -
  from assms(1) obtain x xs' where xs: "xs = x # xs'" by (cases xs) auto
  with assms(2) have "key x = Inr (f x)" "\<forall>y \<in> set xs'. key y = Inr (f y)" by simp_all
  with min_from_first_minimum [of xs' key f x] xs show ?thesis by simp
qed

lemma held_in_range: "i < length allocation \<Longrightarrow> held allocation i = Inr (sum_list (allocation ! i))"
  by (simp add: held_def)

lemma suggest_resolution_victim:
  assumes "deadlocked \<noteq> []" "\<forall>i \<in> set deadlocked. i < length allocation"
  shows "\<exists>victim pre post.
           py_min_key (held allocation) deadlocked = Inr victim \<and>
           suggest_resolution deadlocked allocation request =
             Inr (py_join ''<br>'' (strategies @ [recommendation victim])) \<and>
           deadlocked = pre @ victim # post \<and>
           (\<forall>i \<in> set pre. sum_list (allocation ! victim) < sum_list (allocation ! i)) \<and>
           (\<forall>i \<in> set post. sum_list (allocation ! victim) \<le> sum_list (allocation ! i))"
proof -
  from assms(2) have "\<forall>i \<in> set deadlocked. held allocation i = Inr (sum_list (allocation ! i))"
    by (simp add: held_in_range)
  from py_min_key_first_minimum [OF assms(1) this] obtain victim pre post where
    m: "py_min_key (held allocation) deadlocked = Inr victim" and
    rest: "deadlocked = pre @ victim # post"
      "\<forall>i \<in> set pre. sum_list (allocation ! victim) < sum_list (allocation ! i)"
      "\<forall>i \<in> set post. sum_list (allocation ! victim) \<le> sum_list (allocation ! i)"
    by blast
  from m assms(1) have "suggest_resolution deadlocked allocation request =
             Inr (py_join ''<br>'' (strategies @ [recommendation victim]))"
    by (simp add: suggest_resolution_def)
  with m rest show ?thesis by blast
qed

lemma min_from_error:
  "min_from key best best_key xs = Inl e \<Longrightarrow> \<exists>x \<in> set xs. key x = Inl e"
  by (induction xs arbitrary: best best_key) (auto split: sum.splits if_splits)

lemma py_min_key_value_error:
  "py_min_key (held allocation) xs = Inl ValueError \<longleftrightarrow> xs = []"
proof
  assume a: "py_min_key (held allocation) xs = Inl ValueError"
  show "xs = []"
  proof (rule ccontr)
    assume "xs \<noteq> []"
    then obtain x xs' where xs: "xs = x # xs'" by (cases xs) auto
    with a min_from_error [of "held allocation" x _ xs' ValueError]
    have "\<exists>y \<in> set xs. held allocation y = Inl ValueError"
      by (auto split: sum.splits)
    then show False by (auto simp: held_def py_get_def split: if_splits)
  qed
qed simp

text \<open>
  Claim C2, amended. For a non-empty list of deadlocked processes whose indices lie
  within the allocation matrix, \<open>suggest_resolution\<close> recommends a process of the list
  whose allocation row sum is least; among several with the least sum it is the one
  that comes first in the list, and when the list is in ascending index order, as
  \<open>detect_deadlock\<close> produces it, that is the one with the smallest index. For the list
  \<open>[0, 1]\<close> with rows \<open>[1, 0]\<close> and \<open>[0, 1]\<close> process 0 is recommended.
\<close>

theorem suggest_resolution_victim_heuristic:
  assumes "deadlocked \<noteq> []" and "\<forall>i \<in> set deadlocked. i < length allocation"
  shows "\<exists>victim pre post.
           suggest_resolution deadlocked allocation request =
             Inr (py_join ''<br>'' (strategies @ [recommendation victim])) \<and>
           victim \<in> set deadlocked \<and>
           (\<forall>i \<in> set deadlocked. sum_list (allocation ! victim) \<le> sum_list (allocation ! i)) \<and>
           deadlocked = pre @ victim # post \<and>
           (\<forall>i \<in> set pre. sum_list (allocation ! i) \<noteq> sum_list (allocation ! victim)) \<and>
           (sorted deadlocked \<longrightarrow>
              (\<forall>i \<in> set deadlocked.
                 sum_list (allocation ! i) = sum_list (allocation ! victim) \<longrightarrow> victim \<le> i))"
proof -
  from suggest_resolution_victim [OF assms] obtain victim pre post where
    s: "suggest_resolution deadlocked allocation request =
             Inr (py_join ''<br>'' (strategies @ [recommendation victim]))" and
    split: "deadlocked = pre @ victim # post" and
    pre: "\<forall>i \<in> set pre. sum_list (allocation ! victim) < sum_list (allocation ! i)" and
    post: "\<forall>i \<in> set post. sum_list (allocation ! victim) \<le> sum_list (allocation ! i)"
    by blast
  have mem: "victim \<in> set deadlocked" using split by simp
  have least: "\<forall>i \<in> set deadlocked. sum_list (allocation ! victim) \<le> sum_list (allocation ! i)"
    using split pre post by auto
  have first: "\<forall>i \<in> set pre. sum_list (allocation ! i) \<noteq> sum_list (allocation ! victim)"
    using pre by auto
  have tie: "\<forall>i \<in> set deadlocked.
               sum_list (allocation ! i) = sum_list (allocation ! victim) \<longrightarrow> victim \<le> i"
    if "sorted deadlocked"
  proof (intro ballI impI)
    fix i assume i: "i \<in> set deadlocked"
      and eq: "sum_list (allocation ! i) = sum_list (allocation ! victim)"
    from eq first have "i \<notin> set pre" by auto
    with i split have "i = victim \<or> i \<in> set post" by auto
    moreover from that split have "\<forall>j \<in> set post. victim \<le> j"
      by (simp add: sorted_append)
    ultimately show "victim \<le> i" by auto
  qed
  from s mem least split first tie show ?thesis by blast
qed

theorem suggest_resolution_victim_heuristic_witness:
  "suggest_resolution [0, 1] [[1, 0], [0, 1]] [[0, 1], [1, 0]] =
     Inr (py_join ''<br>'' (strategies @ [recommendation 0]))"
proof -
  have a: "[0, 1 :: nat] \<noteq> []" by simp
  have b: "\<forall>i \<in> set [0, 1 :: nat]. i < length [[1, 0], [0, 1 :: int]]" by simp
  have c: "sorted [0, 1 :: nat]" by simp
  from suggest_resolution_victim_heuristic [OF a b, of "[[0, 1], [1, 0]]"]
  obtain victim where
    s: "suggest_resolution [0, 1] [[1, 0], [0, 1]] [[0, 1], [1, 0]] =
          Inr (py_join ''<br>'' (strategies @ [recommendation victim]))" and
    mem: "victim \<in> set [0, 1 :: nat]" and
    tie: "sorted [0, 1 :: nat] \<longrightarrow>
            (\<forall>i \<in> set [0, 1 :: nat].
               sum_list ([[1, 0], [0, 1 :: int]] ! i) = sum_list ([[1, 0], [0, 1]] ! victim)
               \<longrightarrow> victim \<le> i)"
    by blast
  from tie c have "sum_list ([[1, 0], [0, 1 :: int]] ! 0) = sum_list ([[1, 0], [0, 1]] ! victim)
               \<longrightarrow> victim \<le> 0" by simp
  with mem have "victim = 0" by auto
  with s show ?thesis by simp
qed

text \<open>
  Claim C2 as stated quantifies over every non-empty list. For the list \<open>[1, 0]\<close> with
  the same rows both processes tie with sum 1, and process 1 is recommended although
  process 0 has the smaller index.
\<close>

theorem suggest_resolution_tie_counterexample:
  "suggest_resolution [1, 0] [[1, 0], [0, 1]] [[0, 1], [1, 0]] =
     Inr ''Strategy 1: Terminate one or more deadlocked processes to break the circular wait.<br>Strategy 2: Preempt resources from a process and rollback.<br>Recommendation: Terminate Process P1 (holds fewest resources).'' \<and>
   sum_list ([[1, 0], [0, 1 :: int]] ! 0) = sum_list ([[1, 0], [0, 1 :: int]] ! 1) \<and>
   (0 :: nat) \<in> set [1, 0] \<and> (0 :: nat) < 1"
  by code_simp

text \<open>
  Claim C10. For a non-empty list of deadlocked processes whose indices lie within the
  allocation matrix, \<open>min\<close> does not raise \<open>ValueError\<close>: it returns a process of the
  list, and the advice is the two strategy statements followed by the recommendation
  for that process, never the two statements alone. \<open>min\<close> with this key raises
  \<open>ValueError\<close> for the empty list only, and for the empty list the function has
  already returned \<^verbatim>\<open>No action required.\<close>
\<close>

theorem suggest_resolution_handler_unreachable:
  assumes "deadlocked \<noteq> []" and "\<forall>i \<in> set deadlocked. i < length allocation"
  shows "py_min_key (held allocation) deadlocked \<noteq> Inl ValueError \<and>
         (\<exists>victim \<in> set deadlocked.
            py_min_key (held allocation) deadlocked = Inr victim \<and>
            suggest_resolution deadlocked allocation request =
              Inr (strategies ! 0 @ ''<br>'' @ strategies ! 1 @ ''<br>'' @ recommendation victim)) \<and>
         suggest_resolution deadlocked allocation request \<noteq> Inr (py_join ''<br>'' strategies) \<and>
         (\<forall>xs. py_min_key (held allocation) xs = Inl ValueError \<longleftrightarrow> xs = []) \<and>
         suggest_resolution [] allocation request = Inr ''No action required.''"
proof -
  from suggest_resolution_victim [OF assms] obtain victim pre post where
    m: "py_min_key (held allocation) deadlocked = Inr victim" and
    s: "suggest_resolution deadlocked allocation request =
             Inr (py_join ''<br>'' (strategies @ [recommendation victim]))" and
    split: "deadlocked = pre @ victim # post"
    by blast
  from split have mem: "victim \<in> set deadlocked" by simp
  have j: "py_join ''<br>'' (strategies @ [recommendation victim]) =
        strategies ! 0 @ ''<br>'' @ strategies ! 1 @ ''<br>'' @ recommendation victim"
    by (simp add: strategies_def)
  have "py_join ''<br>'' (strategies @ [recommendation victim]) \<noteq> py_join ''<br>'' strategies"
    by (simp add: strategies_def)
  with s have ne: "suggest_resolution deadlocked allocation request \<noteq>
                   Inr (py_join ''<br>'' strategies)" by simp
  have e: "suggest_resolution [] allocation request = Inr ''No action required.''"
    by (simp add: suggest_resolution_def)
  from m mem s j ne e py_min_key_value_error [of allocation] show ?thesis by auto
qed

theorem suggest_resolution_handler_unreachable_witness:
  "[2, 0 :: nat] \<noteq> [] \<and>
   py_min_key (held [[1, 0], [0, 1], [3, 4]]) [2, 0] = Inr 0 \<and>
   suggest_resolution [2, 0] [[1, 0], [0, 1], [3, 4]] [] =
     Inr ''Strategy 1: Terminate one or more deadlocked processes to break the circular wait.<br>Strategy 2: Preempt resources from a process and rollback.<br>Recommendation: Terminate Process P0 (holds fewest resources).''"
proof -
  have a: "[2, 0 :: nat] \<noteq> []" by simp
  have b: "\<forall>i \<in> set [2, 0 :: nat]. i < length [[1, 0], [0, 1], [3, 4 :: int]]" by simp
  have c: "py_min_key (held [[1, 0], [0, 1], [3, 4]]) [2, 0] = Inr 0" by code_simp
  from suggest_resolution_handler_unreachable [OF a b, of "[]"] c
  have "suggest_resolution [2, 0] [[1, 0], [0, 1], [3, 4]] [] =
          Inr (strategies ! 0 @ ''<br>'' @ strategies ! 1 @ ''<br>'' @ recommendation 0)"
    by auto
  also have "strategies ! 0 @ ''<br>'' @ strategies ! 1 @ ''<br>'' @ recommendation 0 =
     ''Strategy 1: Terminate one or more deadlocked processes to break the circular wait.<br>Strategy 2: Preempt resources from a process and rollback.<br>Recommendation: Terminate Process P0 (holds fewest resources).''"
    by code_simp
  finally show ?thesis using a c by simp
qed

section \<open>The work vector over an execution\<close>

lemma visit_work_step:
  assumes v: "valid_state n m allocation request available"
    and i: "i < nat n" and inv: "detect_inv n allocation available work finish"
  shows "\<exists>work' finish' found'.
           visit m allocation request i (work, finish, found) = Inr (work', finish', found') \<and>
           detect_inv n allocation available work' finish' \<and>
           work_step n m allocation work work'"
proof -
  from inv valid_state_lengths [OF v] have f: "length finish = nat n" and lw: "length work = nat m"
    by (simp_all add: detect_inv_def)
  from visit_inv [OF v i inv, of found] obtain work' finish' found' where
    vis: "visit m allocation request i (work, finish, found) = Inr (work', finish', found')" and
    inv': "detect_inv n allocation available work' finish'" and
    le: "list_all2 (\<le>) work work'" by blast
  from vis visit_valid [OF v i lw f, of found] i
  have "work' = work \<or> (\<exists>i < nat n. work' = map (\<lambda>j. work ! j + allocation ! i ! j) [0..<nat m])"
    by (auto split: if_splits)
  with vis inv' le show ?thesis unfolding work_step_def by blast
qed

lemma pass_states_chain:
  assumes "valid_state n m allocation request available"
    and "set order \<subseteq> {i. i < nat n}"
    and "detect_inv n allocation available work finish"
  shows "\<exists>work' finish' found'.
           pass m allocation request order (work, finish, found) = Inr (work', finish', found') \<and>
           detect_inv n allocation available work' finish' \<and>
           successively (work_step n m allocation)
             (work # map fst (pass_states m allocation request order (work, finish, found))) \<and>
           last (work # map fst (pass_states m allocation request order (work, finish, found))) = work'"
  using assms
proof (induction order arbitrary: work finish found)
  case Nil
  then show ?case by simp
next
  case (Cons i order)
  from Cons.prems(2) have i: "i < nat n" and sub: "set order \<subseteq> {i. i < nat n}" by simp_all
  from visit_work_step [OF Cons.prems(1) i Cons.prems(3), of found] obtain w1 f1 fd1 where
    vis: "visit m allocation request i (work, finish, found) = Inr (w1, f1, fd1)" and
    inv1: "detect_inv n allocation available w1 f1" and
    st: "work_step n m allocation work w1" by blast
  from Cons.IH [OF Cons.prems(1) sub inv1, of fd1] obtain work' finish' found' where
    p: "pass m allocation request order (w1, f1, fd1) = Inr (work', finish', found')" and
    inv': "detect_inv n allocation available work' finish'" and
    ch: "successively (work_step n m allocation)
           (w1 # map fst (pass_states m allocation request order (w1, f1, fd1)))" and
    la: "last (w1 # map fst (pass_states m allocation request order (w1, f1, fd1))) = work'"
    by blast
  from vis p have "pass m allocation request (i # order) (work, finish, found) =
                   Inr (work', finish', found')" by simp
  moreover from vis have "pass_states m allocation request (i # order) (work, finish, found) =
      (w1, f1, fd1) # pass_states m allocation request order (w1, f1, fd1)" by simp
  ultimately show ?case using inv' ch la st by simp
qed

lemma fixed_point_states_chain:
  assumes "valid_state n m allocation request available"
    and "set order \<subseteq> {i. i < nat n}"
    and "detect_inv n allocation available work finish"
  shows "\<exists>work' finish'.
           fixed_point m allocation request order (work, finish) = Inr (work', finish') \<and>
           successively (work_step n m allocation)
             (work # map fst (fixed_point_states m allocation request order (work, finish))) \<and>
           last (work # map fst (fixed_point_states m allocation request order (work, finish))) = work'"
  using assms
proof (induction m allocation request order "(work, finish)" arbitrary: work finish
       rule: fixed_point.induct)
  case (1 m allocation request order work finish)
  note v = "1.prems"(1) and sub = "1.prems"(2) and inv = "1.prems"(3)
  let ?T1 = "map fst (pass_states m allocation request order (work, finish, False))"
  from pass_states_chain [OF v sub inv, of False] obtain w1 f1 fd1 where
    p: "pass m allocation request order (work, finish, False) = Inr (w1, f1, fd1)" and
    inv1: "detect_inv n allocation available w1 f1" and
    ch1: "successively (work_step n m allocation) (work # ?T1)" and
    la1: "last (work # ?T1) = w1" by blast
  show ?case
  proof (cases fd1)
    case False
    with p have "fixed_point m allocation request order (work, finish) = Inr (w1, f1)"
      by (subst fixed_point.simps) simp
    moreover from p False
    have "fixed_point_states m allocation request order (work, finish) =
          pass_states m allocation request order (work, finish, False)"
      by (subst fixed_point_states.simps) simp
    ultimately show ?thesis using ch1 la1 by simp
  next
    case True
    let ?T2 = "map fst (fixed_point_states m allocation request order (w1, f1))"
    from "1.hyps" [OF p refl refl True v sub inv1] obtain work' finish' where
      fp: "fixed_point m allocation request order (w1, f1) = Inr (work', finish')" and
      ch2: "successively (work_step n m allocation) (w1 # ?T2)" and
      la2: "last (w1 # ?T2) = work'" by blast
    from p True fp have "fixed_point m allocation request order (work, finish) = Inr (work', finish')"
      by (subst fixed_point.simps) simp
    moreover from p True
    have eq: "map fst (fixed_point_states m allocation request order (work, finish)) = ?T1 @ ?T2"
      by (subst fixed_point_states.simps) simp
    have "successively (work_step n m allocation) ((work # ?T1) @ ?T2)"
      unfolding successively_append_iff using ch1 ch2 la1
      by (cases ?T2) (simp_all add: successively_Cons)
    moreover have "last ((work # ?T1) @ ?T2) = work'"
      using la1 la2 by (cases ?T2) simp_all
    ultimately show ?thesis unfolding eq by simp
  qed
qed

lemma transp_vector_le: "transp (list_all2 ((\<le>) :: int \<Rightarrow> int \<Rightarrow> bool))"
  by (rule transpI) (erule list_all2_trans [rotated], assumption, simp)

text \<open>
  Claim C7. On a valid state the values of \<open>work\<close> during a call of
  \<open>detect_deadlock\<close>, from the copy of \<open>available\<close> to the value at the fixed point, change
  only by adding an allocation row of non-negative entries, so every value is
  element-wise at most every later one.
\<close>

theorem work_never_decreases:
  assumes "valid_state n m allocation request available"
  shows "hd (work_history n m allocation request available) = available \<and>
         successively (work_step n m allocation)
           (work_history n m allocation request available) \<and>
         sorted_wrt (list_all2 (\<le>)) (work_history n m allocation request available) \<and>
         (\<exists>finish.
            fixed_point m allocation request (py_range n) (available, replicate (nat n) False) =
              Inr (last (work_history n m allocation request available), finish))"
proof -
  have sub: "set (py_range n) \<subseteq> {i. i < nat n}" by (auto simp: py_range_def)
  from fixed_point_states_chain [OF assms sub detect_inv_initial] obtain work' finish' where
    fp: "fixed_point m allocation request (py_range n) (available, replicate (nat n) False) =
           Inr (work', finish')" and
    ch: "successively (work_step n m allocation) (work_history n m allocation request available)" and
    la: "last (work_history n m allocation request available) = work'"
    unfolding work_history_def by blast
  from ch have "successively (list_all2 (\<le>)) (work_history n m allocation request available)"
    by (rule successively_mono) (simp add: work_step_def)
  then have "sorted_wrt (list_all2 (\<le>)) (work_history n m allocation request available)"
    by (simp add: successively_conv_sorted_wrt [OF transp_vector_le])
  moreover have "hd (work_history n m allocation request available) = available"
    by (simp add: work_history_def)
  ultimately show ?thesis using fp ch la by simp
qed

theorem work_never_decreases_witness:
  "valid_state 3 1 [[1], [1], [1]] [[3], [2], [1]] [1] \<and>
   work_history 3 1 [[1], [1], [1]] [[3], [2], [1]] [1] =
     [[1], [1], [1], [2], [2], [3], [3], [4], [4], [4], [4], [4], [4]] \<and>
   sorted_wrt (list_all2 (\<le>)) (work_history 3 1 [[1], [1], [1]] [[3], [2], [1]] [1])"
proof -
  have v: "valid_state 3 1 [[1], [1], [1]] [[3], [2], [1]] [1]" by code_simp
  have h: "work_history 3 1 [[1], [1], [1]] [[3], [2], [1]] [1] =
     [[1], [1], [1], [2], [2], [3], [3], [4], [4], [4], [4], [4], [4]]" by code_simp
  from work_never_decreases [OF v] v h show ?thesis by blast
qed

section \<open>The arguments of detect_deadlock\<close>

lemma st_visit_frame:
  "st_visit m allocation request i (work, finish, found) st = (res, st') \<Longrightarrow> st_frame finish st st'"
  by (auto simp: st_visit.simps st_get_bool_def st_set_bool_def st_alloc_def st_bools_def
      st_frame_def nth_append
      split: sum.splits if_splits py_object.splits)

lemma st_pass_frame:
  "st_pass m allocation request order (work, finish, found) st = (res, st') \<Longrightarrow>
   st_frame finish st st'"
proof (induction order arbitrary: work found st)
  case Nil
  then show ?case by simp
next
  case (Cons i order)
  obtain r1 st1 where v: "st_visit m allocation request i (work, finish, found) st = (r1, st1)"
    by (cases "st_visit m allocation request i (work, finish, found) st")
  note fr1 = st_visit_frame [OF v]
  show ?case
  proof (cases r1)
    case (Inl e)
    with v Cons.prems fr1 show ?thesis by simp
  next
    case (Inr s1)
    obtain w1 f1 fd1 where s1: "s1 = (w1, f1, fd1)" by (cases s1)
    from st_visit_effect [OF v [unfolded Inr s1]] have f1: "f1 = finish" by simp
    from v Inr s1 f1 Cons.prems
    have "st_pass m allocation request order (w1, finish, fd1) st1 = (res, st')" by simp
    from st_frame_trans [OF fr1 Cons.IH [OF this]] show ?thesis .
  qed
qed

lemma st_fixed_point_frame:
  "st_fixed_point m allocation request order (work, finish) st = (res, st') \<Longrightarrow>
   st_frame finish st st'"
proof (induction m allocation request order "(work, finish)" st arbitrary: work finish
       rule: st_fixed_point.induct)
  case (1 m allocation request order work finish st)
  obtain r1 st1 where p: "st_pass m allocation request order (work, finish, False) st = (r1, st1)"
    by (cases "st_pass m allocation request order (work, finish, False) st")
  note fr1 = st_pass_frame [OF p]
  note fp = "1.prems" [unfolded st_fixed_point.simps [of m allocation request order work finish st]]
  show ?case
  proof (cases r1)
    case (Inl e)
    with p fp fr1 show ?thesis by simp
  next
    case (Inr s1)
    obtain w1 f1 fd1 where s1: "s1 = (w1, f1, fd1)" by (cases s1)
    from st_pass_effect [OF p [unfolded Inr s1]] have f1: "f1 = finish" by simp
    show ?thesis
    proof (cases fd1)
      case False
      with p Inr s1 fp fr1 show ?thesis by simp
    next
      case True
      with p Inr s1 f1 fp
      have "st_fixed_point m allocation request order (w1, finish) st1 = (res, st')" by simp
      from "1.hyps" [OF p [symmetric] Inr s1 [symmetric] refl True] this f1
      have "st_frame finish st1 st'" by simp
      from st_frame_trans [OF fr1 this] show ?thesis .
    qed
  qed
qed

lemma st_detect_deadlock_frame:
  assumes "st_detect_deadlock n m allocation request available st = (res, st')"
  shows "length st \<le> length st' \<and> (\<forall>a < length st. st' ! a = st ! a)"
proof (cases "st_ints st available")
  case (Inl e)
  with assms show ?thesis by (simp add: st_detect_deadlock_def)
next
  case (Inr copy)
  let ?st2 = "st @ [IntList copy, BoolList (replicate (nat n) False)]"
  let ?finish = "Suc (length st)"
  obtain r3 st3 where
    fp: "st_fixed_point m allocation request (py_range n) (length st, ?finish) ?st2 = (r3, st3)"
    by (cases "st_fixed_point m allocation request (py_range n) (length st, ?finish) ?st2")
  from assms Inr fp have "st' = st3"
    by (auto simp: st_detect_deadlock_def st_alloc_def split: sum.splits if_splits)
  with st_fixed_point_frame [OF fp] show ?thesis
    by (auto simp: st_frame_def nth_append)
qed

lemma raised_simps [simp]: "raised (Inl e) = Inl (Raised e)" "raised (Inr x) = Inr x"
  by (simp_all add: raised_def)

lemma st_keeps_append: "st_keeps st (st @ xs)"
  by (simp add: st_keeps_def nth_append)

lemma st_keeps_frame:
  "st_frame finish st st' \<Longrightarrow> st_bools st finish = Inr F \<Longrightarrow> st_keeps st st'"
  by (auto simp: st_keeps_def st_frame_def st_bools_def split: if_splits py_object.splits)

lemma st_keeps_ints: "st_keeps st st' \<Longrightarrow> st_ints st a = Inr xs \<Longrightarrow> st_ints st' a = Inr xs"
  by (auto simp: st_keeps_def st_ints_def split: if_splits py_object.splits)

lemma st_keeps_rows: "st_keeps st st' \<Longrightarrow> st_rows st a = Inr rs \<Longrightarrow> st_rows st' a = Inr rs"
  by (auto simp: st_keeps_def st_rows_def split: if_splits py_object.splits)

lemma st_keeps_matrix:
  assumes "st_keeps st st'" "holds_matrix st a mat"
  shows "holds_matrix st' a mat"
proof -
  from assms(2) obtain rows where
    r: "st_rows st a = Inr rows" and
    l: "list_all2 (\<lambda>r row. st_ints st r = Inr row) rows mat"
    by (auto simp: holds_matrix_def split: sum.splits)
  from l have "list_all2 (\<lambda>r row. st_ints st' r = Inr row) rows mat"
    by (rule list_all2_mono) (rule st_keeps_ints [OF assms(1)])
  with st_keeps_rows [OF assms(1) r] show ?thesis by (simp add: holds_matrix_def)
qed

lemma st_get_holds: "st_ints st a = Inr xs \<Longrightarrow> st_get st a j = raised (py_get xs j)"
  by (simp add: st_get_def py_get_def)

lemma st_get_bool_holds: "st_bools st a = Inr bs \<Longrightarrow> st_get_bool st a i = raised (py_get bs i)"
  by (simp add: st_get_bool_def py_get_def)

lemma st_get2_holds:
  assumes "holds_matrix st a mat"
  shows "st_get2 st a i j = raised (py_get2 mat i j)"
proof -
  from assms obtain rows where
    r: "st_rows st a = Inr rows" and
    l: "list_all2 (\<lambda>r row. st_ints st r = Inr row) rows mat"
    by (auto simp: holds_matrix_def split: sum.splits)
  from l have len: "length rows = length mat" by (rule list_all2_lengthD)
  show ?thesis
  proof (cases "i < length mat")
    case True
    with l len have "st_ints st (rows ! i) = Inr (mat ! i)" by (simp add: list_all2_conv_all_nth)
    from st_get_holds [OF this, of j] r True len show ?thesis
      by (simp add: st_get2_def py_get2_def py_get_def)
  next
    case False
    with r len show ?thesis by (simp add: st_get2_def py_get2_def py_get_def)
  qed
qed

lemma st_request_fits_holds:
  assumes "holds_matrix st request R" "st_ints st work = Inr W"
  shows "st_request_fits st request work i js = raised (request_fits R W i js)"
  by (induction js)
    (auto simp: st_get2_holds [OF assms(1)] st_get_holds [OF assms(2)] split: sum.splits)

lemma st_released_holds:
  assumes "holds_matrix st allocation A" "st_ints st work = Inr W"
  shows "st_released st work allocation i js = raised (released W A i js)"
  by (induction js)
    (auto simp: st_get2_holds [OF assms(1)] st_get_holds [OF assms(2)] split: sum.splits)

lemma st_unfinished_holds:
  assumes "st_bools st finish = Inr F"
  shows "st_unfinished st finish is = raised (unfinished F is)"
  by (induction "is") (auto simp: st_get_bool_holds [OF assms] split: sum.splits)

lemma st_visit_refines:
  assumes A: "holds_matrix st allocation A" and R: "holds_matrix st request R"
    and W: "st_ints st work = Inr W" and F: "st_bools st finish = Inr F"
  shows "case visit m A R i (W, F, found) of
           Inl e \<Rightarrow> fst (st_visit m allocation request i (work, finish, found) st) = Inl (Raised e)
         | Inr (W', F', found') \<Rightarrow>
             \<exists>work' st'.
               st_visit m allocation request i (work, finish, found) st =
                 (Inr (work', finish, found'), st') \<and>
               st_ints st' work' = Inr W' \<and> st_bools st' finish = Inr F'"
proof (cases "i < length F")
  case False
  with F show ?thesis
    by (simp add: visit.simps st_visit.simps st_get_bool_def py_get_def)
next
  case i: True
  from F have fl: "finish < length st" by (auto simp: st_bools_def split: if_splits)
  show ?thesis
  proof (cases "F ! i")
    case True
    with i F W show ?thesis
      by (simp add: visit.simps st_visit.simps st_get_bool_def py_get_def)
  next
    case nf: False
    note rf = st_request_fits_holds [OF R W, of i "py_range m"]
    show ?thesis
    proof (cases "request_fits R W i (py_range m)")
      case (Inl e)
      with rf i nf F show ?thesis
        by (simp add: visit.simps st_visit.simps st_get_bool_def py_get_def)
    next
      case (Inr fits)
      show ?thesis
      proof (cases fits)
        case False
        with Inr rf i nf F W show ?thesis
          by (simp add: visit.simps st_visit.simps st_get_bool_def py_get_def)
      next
        case True
        note rl = st_released_holds [OF A W, of i "py_range m"]
        show ?thesis
        proof (cases "released W A i (py_range m)")
          case (Inl e)
          with rl Inr True rf i nf F show ?thesis
            by (simp add: visit.simps st_visit.simps st_get_bool_def py_get_def)
        next
          case new: (Inr new_work)
          let ?st1 = "st @ [IntList new_work]"
          let ?st2 = "?st1[finish := BoolList (F[i := True])]"
          from F fl have b1: "st_bools ?st1 finish = Inr F"
            by (simp add: st_bools_def nth_append)
          with i have set: "st_set_bool ?st1 finish i True = Inr ?st2"
            by (simp add: st_set_bool_def)
          have "st_visit m allocation request i (work, finish, found) st =
                (Inr (length st, finish, True), ?st2)"
            using rl new Inr True rf i nf F set
            by (simp add: st_visit.simps st_get_bool_def st_alloc_def)
          moreover have "st_ints ?st2 (length st) = Inr new_work"
            using fl by (simp add: st_ints_def)
          moreover have "st_bools ?st2 finish = Inr (F[i := True])"
            using fl by (simp add: st_bools_def)
          moreover have "visit m A R i (W, F, found) = Inr (new_work, F[i := True], True)"
            using new Inr True i nf by (simp add: visit.simps)
          ultimately show ?thesis by simp
        qed
      qed
    qed
  qed
qed

lemma st_pass_refines:
  assumes "holds_matrix st allocation A" and "holds_matrix st request R"
    and "st_ints st work = Inr W" and "st_bools st finish = Inr F"
  shows "case pass m A R order (W, F, found) of
           Inl e \<Rightarrow> fst (st_pass m allocation request order (work, finish, found) st) = Inl (Raised e)
         | Inr (W', F', found') \<Rightarrow>
             \<exists>work' st'.
               st_pass m allocation request order (work, finish, found) st =
                 (Inr (work', finish, found'), st') \<and>
               st_ints st' work' = Inr W' \<and> st_bools st' finish = Inr F'"
  using assms
proof (induction order arbitrary: st work W F found)
  case Nil
  then show ?case by simp
next
  case (Cons i order)
  note v = st_visit_refines [OF Cons.prems, of m i found]
  show ?case
  proof (cases "visit m A R i (W, F, found)")
    case (Inl e)
    with v show ?thesis by (auto split: prod.splits sum.splits)
  next
    case (Inr s1)
    obtain W1 F1 fd1 where s1: "s1 = (W1, F1, fd1)" by (cases s1)
    from v Inr s1 obtain work1 st1 where
      sv: "st_visit m allocation request i (work, finish, found) st = (Inr (work1, finish, fd1), st1)"
      and w1: "st_ints st1 work1 = Inr W1" and f1: "st_bools st1 finish = Inr F1"
      by auto
    from st_visit_frame [OF sv] Cons.prems(4) have keep: "st_keeps st st1"
      by (rule st_keeps_frame)
    note ih = Cons.IH [OF st_keeps_matrix [OF keep Cons.prems(1)]
        st_keeps_matrix [OF keep Cons.prems(2)] w1 f1, of fd1]
    have eq1: "st_pass m allocation request (i # order) (work, finish, found) st =
          st_pass m allocation request order (work1, finish, fd1) st1"
      using sv by simp
    have eq2: "pass m A R (i # order) (W, F, found) = pass m A R order (W1, F1, fd1)"
      using Inr s1 by simp
    show ?thesis unfolding eq1 eq2 by (rule ih)
  qed
qed

lemma st_fixed_point_refines:
  assumes "holds_matrix st allocation A" and "holds_matrix st request R"
    and "st_ints st work = Inr W" and "st_bools st finish = Inr F"
  shows "case fixed_point m A R order (W, F) of
           Inl e \<Rightarrow>
             fst (st_fixed_point m allocation request order (work, finish) st) = Inl (Raised e)
         | Inr (W', F') \<Rightarrow>
             \<exists>work' st'.
               st_fixed_point m allocation request order (work, finish) st =
                 (Inr (work', finish), st') \<and>
               st_ints st' work' = Inr W' \<and> st_bools st' finish = Inr F'"
  using assms
proof (induction m A R order "(W, F)" arbitrary: W F st work rule: fixed_point.induct)
  case (1 m A R order W F)
  note p = st_pass_refines [OF "1.prems", of m order False]
  note unf = fixed_point.simps [of m A R order W F]
    st_fixed_point.simps [of m allocation request order work finish st]
  show ?case
  proof (cases "pass m A R order (W, F, False)")
    case (Inl e)
    with p have "fst (st_pass m allocation request order (work, finish, False) st) = Inl (Raised e)"
      by simp
    then obtain st1 where
      "st_pass m allocation request order (work, finish, False) st = (Inl (Raised e), st1)"
      by (cases "st_pass m allocation request order (work, finish, False) st") auto
    with Inl show ?thesis unfolding unf by simp
  next
    case (Inr s1)
    obtain W1 F1 fd1 where s1: "s1 = (W1, F1, fd1)" by (cases s1)
    from p Inr s1 obtain work1 st1 where
      sp: "st_pass m allocation request order (work, finish, False) st =
             (Inr (work1, finish, fd1), st1)"
      and w1: "st_ints st1 work1 = Inr W1" and f1: "st_bools st1 finish = Inr F1"
      by auto
    show ?thesis
    proof (cases fd1)
      case False
      with Inr s1 sp w1 f1 show ?thesis unfolding unf by simp
    next
      case True
      from st_pass_frame [OF sp] "1.prems"(4) have keep: "st_keeps st st1"
        by (rule st_keeps_frame)
      note ih = "1.hyps" [OF Inr [unfolded s1] refl refl True
          st_keeps_matrix [OF keep "1.prems"(1)] st_keeps_matrix [OF keep "1.prems"(2)] w1 f1]
      have eq1: "fixed_point m A R order (W, F) = fixed_point m A R order (W1, F1)"
        unfolding unf using Inr s1 True by simp
      have eq2: "st_fixed_point m allocation request order (work, finish) st =
                 st_fixed_point m allocation request order (work1, finish) st1"
        unfolding unf using sp True by simp
      show ?thesis unfolding eq1 eq2 by (rule ih)
    qed
  qed
qed

lemma st_detect_deadlock_refines:
  assumes A: "holds_matrix st allocation A" and R: "holds_matrix st request R"
    and V: "st_ints st available = Inr V"
  shows "fst (st_detect_deadlock n m allocation request available st) =
         raised (detect_deadlock n m A R V)"
proof -
  let ?F0 = "replicate (nat n) False"
  let ?st2 = "(st @ [IntList V]) @ [BoolList ?F0]"
  let ?work = "length st"
  let ?finish = "Suc (length st)"
  have keep: "st_keeps st ?st2" by (simp add: st_keeps_def nth_append)
  have w: "st_ints ?st2 ?work = Inr V" by (simp add: st_ints_def nth_append)
  have f: "st_bools ?st2 ?finish = Inr ?F0" by (simp add: st_bools_def nth_append)
  note fp = st_fixed_point_refines [OF st_keeps_matrix [OF keep A] st_keeps_matrix [OF keep R] w f,
      of m "py_range n"]
  have unf: "st_detect_deadlock n m allocation request available st =
     (case st_fixed_point m allocation request (py_range n) (?work, ?finish) ?st2 of
        (Inl e, st3) \<Rightarrow> (Inl e, st3)
      | (Inr (work', finish'), st3) \<Rightarrow>
          (case st_unfinished st3 finish' (py_range n) of
             Inl e \<Rightarrow> (Inl e, st3)
           | Inr deadlocked \<Rightarrow>
               if deadlocked \<noteq> []
               then (Inr (True, deadlocked,
                          ''Deadlock detected in processes: '' @
                          py_str_list deadlocked @ ''.''), st3)
               else (Inr (False, [], ''No deadlock detected.''), st3)))"
    using V by (simp add: st_detect_deadlock_def st_alloc_def)
  show ?thesis
  proof (cases "fixed_point m A R (py_range n) (V, ?F0)")
    case (Inl e)
    with fp have "fst (st_fixed_point m allocation request (py_range n) (?work, ?finish) ?st2) =
                  Inl (Raised e)" by simp
    then obtain st3 where
      "st_fixed_point m allocation request (py_range n) (?work, ?finish) ?st2 = (Inl (Raised e), st3)"
      by (cases "st_fixed_point m allocation request (py_range n) (?work, ?finish) ?st2") auto
    with Inl show ?thesis unfolding unf by (simp add: detect_deadlock_def)
  next
    case (Inr r)
    obtain W' F' where r: "r = (W', F')" by (cases r)
    from fp Inr r obtain work' st3 where
      sfp: "st_fixed_point m allocation request (py_range n) (?work, ?finish) ?st2 =
              (Inr (work', ?finish), st3)"
      and f3: "st_bools st3 ?finish = Inr F'"
      by auto
    note u = st_unfinished_holds [OF f3, of "py_range n"]
    show ?thesis unfolding unf sfp using Inr r u
      by (cases "unfinished F' (py_range n)") (simp_all add: detect_deadlock_def)
  qed
qed

text \<open>
  Claim C8. A call of \<open>detect_deadlock\<close> leaves every object that existed before the call
  as it was, whether it returns or raises: the store after the call is the store
  before it followed by new objects (the copies \<open>work\<close> and \<open>finish\<close>). So the allocation
  matrix, the request matrix and the available vector read the same before and after,
  and the result is that of the function on values.
\<close>

theorem detect_deadlock_never_mutates_arguments:
  "take (length st) (snd (st_detect_deadlock n m allocation request available st)) = st \<and>
   (holds_matrix st allocation A \<and> holds_matrix st request R \<and> st_ints st available = Inr V \<longrightarrow>
      fst (st_detect_deadlock n m allocation request available st) =
        raised (detect_deadlock n m A R V) \<and>
      holds_matrix (snd (st_detect_deadlock n m allocation request available st)) allocation A \<and>
      holds_matrix (snd (st_detect_deadlock n m allocation request available st)) request R \<and>
      st_ints (snd (st_detect_deadlock n m allocation request available st)) available = Inr V)"
proof -
  obtain res st' where r: "st_detect_deadlock n m allocation request available st = (res, st')"
    by (cases "st_detect_deadlock n m allocation request available st")
  from st_detect_deadlock_frame [OF r] have
    len: "length st \<le> length st'" and same: "\<forall>a < length st. st' ! a = st ! a" by simp_all
  then have prefix: "take (length st) st' = st"
    by (simp add: list_eq_iff_nth_eq)
  from len same have keep: "st_keeps st st'" by (simp add: st_keeps_def)
  show ?thesis
    unfolding r using prefix st_keeps_matrix [OF keep] st_keeps_ints [OF keep]
      st_detect_deadlock_refines [of st allocation A request R available V n m] r
    by auto
qed

theorem detect_deadlock_never_mutates_arguments_witness:
  "holds_matrix [IntList [1], IntList [1], RowList [0, 1], IntList [1], IntList [5],
                 RowList [3, 4], IntList [1]] 2 [[1], [1]] \<and>
   holds_matrix [IntList [1], IntList [1], RowList [0, 1], IntList [1], IntList [5],
                 RowList [3, 4], IntList [1]] 5 [[1], [5]] \<and>
   st_detect_deadlock 2 1 2 5 6
     [IntList [1], IntList [1], RowList [0, 1], IntList [1], IntList [5],
      RowList [3, 4], IntList [1]] =
     (Inr (True, [1], ''Deadlock detected in processes: [1].''),
      [IntList [1], IntList [1], RowList [0, 1], IntList [1], IntList [5],
       RowList [3, 4], IntList [1], IntList [1], BoolList [True, False], IntList [2]]) \<and>
   detect_deadlock 2 1 [[1], [1]] [[1], [5]] [1] =
     Inr (True, [1], ''Deadlock detected in processes: [1].'')"
proof -
  let ?st = "[IntList [1], IntList [1], RowList [0, 1], IntList [1], IntList [5],
              RowList [3, 4], IntList [1]]"
  have a: "holds_matrix ?st 2 [[1], [1]]" by code_simp
  have b: "holds_matrix ?st 5 [[1], [5]]" by code_simp
  have c: "st_ints ?st 6 = Inr [1]" by code_simp
  have d: "st_detect_deadlock 2 1 2 5 6 ?st =
     (Inr (True, [1], ''Deadlock detected in processes: [1].''),
      ?st @ [IntList [1], BoolList [True, False], IntList [2]])" by code_simp
  from detect_deadlock_never_mutates_arguments [of ?st 2 1 2 5 6 "[[1], [1]]" "[[1], [5]]" "[1]"]
    a b c d
  have "raised (detect_deadlock 2 1 [[1], [1]] [[1], [5]] [1]) =
        Inr (True, [1], ''Deadlock detected in processes: [1].'')"
    by simp
  then have "detect_deadlock 2 1 [[1], [1]] [[1], [5]] [1] =
     Inr (True, [1], ''Deadlock detected in processes: [1].'')"
    by (cases "detect_deadlock 2 1 [[1], [1]] [[1], [5]] [1]") simp_all
  with a b d show ?thesis by simp
qed

end
